theory Spec2Isabelle
  imports Complex_Main "HOL-Library.Sublist" "HOL-Library.Multiset"
begin

section \<open>The cost tracker's reconciliation and cost engine (tracker.py)\<close>

text \<open>
  A shallow embedding of the analysis engine of \<^verbatim>\<open>tracker.py\<close>: pricing resolution
  (\<^verbatim>\<open>price_for\<close>), token estimation (\<^verbatim>\<open>estimate_tokens\<close>), the transcript extractor
  (\<^verbatim>\<open>parse_real_usage\<close>) and the analysis (\<^verbatim>\<open>analyse\<close>).

  Conventions of the embedding.
  \<^item> Python's unbounded integers are \<open>int\<close>.
  \<^item> Prices, timestamps and costs are Python floats in the source. They are idealised
    as \<open>real\<close>: arithmetic is exact, rounding is not modelled.
  \<^item> A JSON object read with \<^verbatim>\<open>d.get(key, default)\<close> is a record whose field is an
    \<open>option\<close>; the default of the source is written out at each read. A read with
    \<^verbatim>\<open>d[key]\<close> of an absent key is the error \<open>KeyError\<close>.
  \<^item> A dictionary is a map \<open>'k \<rightharpoonup> 'v\<close>.
\<close>

datatype error = KeyError

subsection \<open>Tool categories\<close>

definition TOOL_CATEGORIES :: "string \<rightharpoonup> string" where
  "TOOL_CATEGORIES =
     [''Read'' \<mapsto> ''Reading files'', ''Write'' \<mapsto> ''Writing files'',
      ''Edit'' \<mapsto> ''Editing files'', ''MultiEdit'' \<mapsto> ''Editing files'',
      ''Bash'' \<mapsto> ''Running commands'', ''Task'' \<mapsto> ''Delegating to sub-task'',
      ''Grep'' \<mapsto> ''Searching code'', ''Glob'' \<mapsto> ''Searching code'',
      ''WebFetch'' \<mapsto> ''Browsing web'', ''WebSearch'' \<mapsto> ''Browsing web'']"

text \<open>\<^verbatim>\<open>str(tool_name).startswith("mcp__")\<close>, then the table with default "Other".\<close>

definition category_for :: "string \<Rightarrow> string" where
  "category_for tool_name =
     (if take 5 tool_name = ''mcp__'' then ''MCP tool call''
      else (case TOOL_CATEGORIES tool_name of Some c \<Rightarrow> c | None \<Rightarrow> ''Other''))"

subsection \<open>Rate cards and pricing resolution\<close>

text \<open>
  A rate card is a JSON object with the keys \<^verbatim>\<open>input\<close>, \<^verbatim>\<open>output\<close>,
  \<^verbatim>\<open>cache_creation\<close> and \<^verbatim>\<open>cache_read\<close> (price per million tokens); any of them may
  be absent in a card of \<^verbatim>\<open>pricing.json\<close>.
\<close>

record rate_card =
  rc_input :: "real option"
  rc_output :: "real option"
  rc_cache_creation :: "real option"
  rc_cache_read :: "real option"

definition FALLBACK_PRICING :: rate_card where
  "FALLBACK_PRICING =
     \<lparr>rc_input = Some 3, rc_output = Some 15,
      rc_cache_creation = Some (375 / 100), rc_cache_read = Some (30 / 100)\<rparr>"

definition CONTEXT_CAP :: int where
  "CONTEXT_CAP = 200000"

definition MAX_RESPONSE_TOKENS :: int where
  "MAX_RESPONSE_TOKENS = 50000"

text \<open>
  \<^verbatim>\<open>model.split("-")\<close>: the segments between dashes; the empty string gives one empty
  segment, and two adjacent dashes give an empty segment between them.
\<close>

fun split_dash :: "string \<Rightarrow> string list" where
  "split_dash [] = [[]]"
| "split_dash (c # cs) =
     (if c = CHR ''-'' then [] # split_dash cs
      else (case split_dash cs of
              p # ps \<Rightarrow> (c # p) # ps
            | [] \<Rightarrow> [[c]]))"

text \<open>\<^verbatim>\<open>"-".join(parts)\<close>.\<close>

fun join_dash :: "string list \<Rightarrow> string" where
  "join_dash [] = []"
| "join_dash [p] = p"
| "join_dash (p # q # ps) = p @ CHR ''-'' # join_dash (q # ps)"

text \<open>
  The loop \<^verbatim>\<open>for end in range(len(parts), 2, -1)\<close> of \<^verbatim>\<open>price_for\<close>, started at
  \<open>end = len(parts)\<close>: the candidate is \<^verbatim>\<open>"-".join(parts[:end])\<close>, and the first
  candidate found in the table is returned.
\<close>

fun prefix_loop :: "(string \<rightharpoonup> rate_card) \<Rightarrow> string list \<Rightarrow> nat \<Rightarrow> rate_card option" where
  "prefix_loop models_dict parts end =
     (if end \<le> 2 then None
      else (case models_dict (join_dash (take end parts)) of
              Some rc \<Rightarrow> Some rc
            | None \<Rightarrow> prefix_loop models_dict parts (end - 1)))"

declare prefix_loop.simps [simp del]

text \<open>
  \<^verbatim>\<open>resolved = aliases_dict.get(model)\<close> followed by
  \<^verbatim>\<open>if resolved and resolved in models_dict\<close>: an absent alias and an alias whose
  target is the empty string are both falsy and resolve nothing.
\<close>

definition alias_lookup ::
  "string \<Rightarrow> (string \<rightharpoonup> rate_card) \<Rightarrow> (string \<rightharpoonup> string) \<Rightarrow> rate_card option" where
  "alias_lookup model models_dict aliases_dict =
     (case aliases_dict model of
        None \<Rightarrow> None
      | Some resolved \<Rightarrow> (if resolved \<noteq> [] then models_dict resolved else None))"

text \<open>
  \<^verbatim>\<open>price_for\<close> returns the card; the second component of the result says whether the
  warning "model not in pricing.json, using sonnet fallback" was printed.
\<close>

definition price_for ::
  "string \<Rightarrow> (string \<rightharpoonup> rate_card) \<Rightarrow> (string \<rightharpoonup> string) \<Rightarrow> rate_card \<times> bool" where
  "price_for model models_dict aliases_dict =
     (case models_dict model of
        Some rc \<Rightarrow> (rc, False)
      | None \<Rightarrow>
          (case alias_lookup model models_dict aliases_dict of
             Some rc \<Rightarrow> (rc, False)
           | None \<Rightarrow>
               (let parts = split_dash model in
                case prefix_loop models_dict parts (length parts) of
                  Some rc \<Rightarrow> (rc, False)
                | None \<Rightarrow> (FALLBACK_PRICING, True))))"

subsection \<open>Token estimation and the instrumentation events\<close>

text \<open>
  \<^verbatim>\<open>estimate_tokens(text) = min(len(str(text)) // 4, MAX_RESPONSE_TOKENS)\<close>. The argument
  of the model is the string form \<^verbatim>\<open>str(text)\<close>, a list of code points of any type.
\<close>

definition estimate_tokens :: "'c list \<Rightarrow> int" where
  "estimate_tokens text = min (int (length text) div 4) MAX_RESPONSE_TOKENS"

text \<open>
  An instrumentation event, as \<^verbatim>\<open>mode_pre\<close> and \<^verbatim>\<open>mode_post\<close> write it to the
  session log: \<^verbatim>\<open>type\<close>, \<^verbatim>\<open>ts\<close>, \<^verbatim>\<open>tool\<close> and \<^verbatim>\<open>session_id\<close> are always there, the
  other keys depend on the kind of the event. Since every event carries a timestamp,
  \<^verbatim>\<open>e.get("ts", 0)\<close> and \<^verbatim>\<open>e["ts"]\<close> both read the field \<open>ev_ts\<close>.
\<close>

record event =
  ev_type :: string
  ev_ts :: real
  ev_tool :: string
  ev_session_id :: string
  ev_input_tokens :: "int option"
  ev_response_tokens :: "int option"
  ev_file_path :: "string option"
  ev_command :: "string option"
  ev_model :: "string option"

text \<open>Python's \<^verbatim>\<open>a or b\<close> on optional strings: \<^verbatim>\<open>None\<close> and \<^verbatim>\<open>""\<close> are falsy.\<close>

definition py_or :: "string option \<Rightarrow> string option \<Rightarrow> string option" where
  "py_or a b = (case a of None \<Rightarrow> b | Some s \<Rightarrow> (if s \<noteq> [] then a else b))"

text \<open>
  The event built by \<^verbatim>\<open>mode_pre\<close>. \<open>now\<close> is \<^verbatim>\<open>time.time()\<close>, \<open>dumped\<close> is
  \<^verbatim>\<open>json.dumps(tool_input)\<close>, and the four optional strings are the keys
  \<^verbatim>\<open>file_path\<close>, \<^verbatim>\<open>path\<close>, \<^verbatim>\<open>filename\<close> and \<^verbatim>\<open>command\<close> of \<^verbatim>\<open>tool_input\<close>.
\<close>

definition mode_pre ::
  "real \<Rightarrow> string \<Rightarrow> string \<Rightarrow> 'c list \<Rightarrow>
   string option \<Rightarrow> string option \<Rightarrow> string option \<Rightarrow> string option \<Rightarrow> event" where
  "mode_pre now session_id tool_name dumped ti_file_path ti_path ti_filename ti_command =
     \<lparr>ev_type = ''pre'', ev_ts = now, ev_tool = tool_name, ev_session_id = session_id,
      ev_input_tokens = Some (estimate_tokens dumped),
      ev_response_tokens = None,
      ev_file_path =
        (if tool_name \<in> {''Read'', ''Write'', ''Edit'', ''MultiEdit''}
         then py_or (py_or ti_file_path ti_path) ti_filename else None),
      ev_command =
        (if tool_name = ''Bash''
         then Some (take 200 (case ti_command of None \<Rightarrow> [] | Some c \<Rightarrow> c)) else None),
      ev_model = None\<rparr>"

text \<open>
  The event built by \<^verbatim>\<open>mode_post\<close>. \<open>response\<close> is \<^verbatim>\<open>str(tool_response)\<close> and
  \<open>response_model\<close> is \<^verbatim>\<open>tool_response["model"]\<close> when the response is an object
  with that key.
\<close>

definition mode_post ::
  "real \<Rightarrow> string \<Rightarrow> string \<Rightarrow> 'c list \<Rightarrow> string option \<Rightarrow> event" where
  "mode_post now session_id tool_name response response_model =
     \<lparr>ev_type = ''post'', ev_ts = now, ev_tool = tool_name, ev_session_id = session_id,
      ev_input_tokens = None,
      ev_response_tokens = Some (estimate_tokens response),
      ev_file_path = None, ev_command = None,
      ev_model = response_model\<rparr>"

subsection \<open>Timing pairs\<close>

record paired =
  p_tool :: string
  p_category :: string
  p_elapsed_s :: real
  p_input_tokens :: int
  p_response_tokens :: int
  p_file_path :: "string option"
  p_command :: "string option"
  p_ts :: real

text \<open>
  \<^verbatim>\<open>post_by_tool\<close> is a \<^verbatim>\<open>defaultdict(list)\<close>: a total function from tools to lists,
  empty where nothing was appended.
\<close>

definition post_by_tool :: "event list \<Rightarrow> (string \<Rightarrow> event list)" where
  "post_by_tool post_events =
     foldl (\<lambda>m p. m(ev_tool p := m (ev_tool p) @ [p])) (\<lambda>_. []) post_events"

text \<open>
  \<^verbatim>\<open>next((c for c in candidates if c.get("ts", 0) > pre.get("ts", 0)), None)\<close>: the
  first candidate, in the order of the list, with a later timestamp.
\<close>

definition find_match :: "event \<Rightarrow> event list \<Rightarrow> event option" where
  "find_match pre candidates = List.find (\<lambda>c. ev_ts c > ev_ts pre) candidates"

text \<open>
  The dictionary appended to \<^verbatim>\<open>paired\<close>; \<open>None\<close> stands for the empty match
  \<^verbatim>\<open>matched = {}\<close>.
\<close>

definition make_paired :: "event \<Rightarrow> event option \<Rightarrow> paired" where
  "make_paired pre matched =
     \<lparr>p_tool = ev_tool pre,
      p_category = category_for (ev_tool pre),
      p_elapsed_s = (case matched of Some m \<Rightarrow> ev_ts m - ev_ts pre | None \<Rightarrow> 0),
      p_input_tokens = (case ev_input_tokens pre of Some n \<Rightarrow> n | None \<Rightarrow> 0),
      p_response_tokens =
        (case matched of
           Some m \<Rightarrow> (case ev_response_tokens m of Some n \<Rightarrow> n | None \<Rightarrow> 0)
         | None \<Rightarrow> 0),
      p_file_path =
        py_or (ev_file_path pre) (case matched of Some m \<Rightarrow> ev_file_path m | None \<Rightarrow> None),
      p_command = ev_command pre,
      p_ts = ev_ts pre\<rparr>"

text \<open>
  The loop \<^verbatim>\<open>for pre in pre_events\<close>. It returns every \<open>pre\<close> event with its match, in
  the order of the loop; \<^verbatim>\<open>candidates.remove(matched)\<close> removes the first element of
  the tool's list equal to the match, and the list is shared with the dictionary.
\<close>

fun pair_loop :: "event list \<Rightarrow> (string \<Rightarrow> event list) \<Rightarrow> (event \<times> event option) list" where
  "pair_loop [] pool = []"
| "pair_loop (pre # pres) pool =
     (let tool = ev_tool pre;
          candidates = pool tool
      in case find_match pre candidates of
           Some matched \<Rightarrow>
             (pre, Some matched) # pair_loop pres (pool(tool := remove1 matched candidates))
         | None \<Rightarrow> (pre, None) # pair_loop pres pool)"

definition pre_events :: "event list \<Rightarrow> event list" where
  "pre_events events = filter (\<lambda>e. ev_type e = ''pre'') events"

definition post_events :: "event list \<Rightarrow> event list" where
  "post_events events = filter (\<lambda>e. ev_type e = ''post'') events"

definition matching :: "event list \<Rightarrow> (event \<times> event option) list" where
  "matching events = pair_loop (pre_events events) (post_by_tool (post_events events))"

definition paired_of :: "event list \<Rightarrow> paired list" where
  "paired_of events = map (\<lambda>(pre, matched). make_paired pre matched) (matching events)"

subsection \<open>The transcript and its usage records\<close>

text \<open>
  A line of the transcript, after \<^verbatim>\<open>line.strip()\<close> and \<^verbatim>\<open>json.loads\<close>: blank, not
  JSON (\<^verbatim>\<open>JSONDecodeError\<close>, skipped), JSON that is not an object (\<^verbatim>\<open>d.get\<close> raises,
  and the handler around the whole loop returns \<^verbatim>\<open>None\<close>), or an object. The transcript
  itself may be unreadable (\<^verbatim>\<open>open\<close> raises).
\<close>

record usage =
  u_input_tokens :: "int option"
  u_output_tokens :: "int option"
  u_cache_creation_input_tokens :: "int option"
  u_cache_read_input_tokens :: "int option"

record message =
  m_usage :: "usage option"
  m_model :: "string option"

record entry =
  t_type :: "string option"
  t_message :: "message option"
  t_requestId :: "string option"
  t_timestamp :: "string option"

datatype jline = Blank | Undecodable | NotObject | Object entry

datatype transcript = Unreadable | Lines "jline list"

record api_call =
  ac_ts :: string
  ac_model :: string
  ac_input :: int
  ac_output :: int
  ac_cache_create :: int
  ac_cache_read :: int
  ac_total_ctx :: int

definition get0 :: "int option \<Rightarrow> int" where
  "get0 v = (case v of Some n \<Rightarrow> n | None \<Rightarrow> 0)"

definition get_str :: "string option \<Rightarrow> string" where
  "get_str v = (case v of Some s \<Rightarrow> s | None \<Rightarrow> [])"

text \<open>The dictionary appended to \<^verbatim>\<open>api_calls\<close> for a retained record.\<close>

definition make_call :: "entry \<Rightarrow> message \<Rightarrow> usage \<Rightarrow> api_call" where
  "make_call d msg usage =
     (let inp = get0 (u_input_tokens usage);
          out = get0 (u_output_tokens usage);
          cc = get0 (u_cache_creation_input_tokens usage);
          cr = get0 (u_cache_read_input_tokens usage)
      in \<lparr>ac_ts = get_str (t_timestamp d), ac_model = get_str (m_model msg),
          ac_input = inp, ac_output = out, ac_cache_create = cc, ac_cache_read = cr,
          ac_total_ctx = inp + cc + cr\<rparr>)"

text \<open>
  The loop over the lines of the transcript, with its two variables \<^verbatim>\<open>seen_req\<close> and
  \<^verbatim>\<open>api_calls\<close>. The result \<open>None\<close> is the exception caught around the loop. A record
  without \<^verbatim>\<open>requestId\<close> has the request identifier \<^verbatim>\<open>None\<close>, which is a member of
  \<^verbatim>\<open>seen_req\<close> like any other.
\<close>

fun scan :: "jline list \<Rightarrow> string option set \<Rightarrow> api_call list \<Rightarrow> api_call list option" where
  "scan [] seen_req api_calls = Some api_calls"
| "scan (Blank # ls) seen_req api_calls = scan ls seen_req api_calls"
| "scan (Undecodable # ls) seen_req api_calls = scan ls seen_req api_calls"
| "scan (NotObject # ls) seen_req api_calls = None"
| "scan (Object d # ls) seen_req api_calls =
     (if t_type d \<noteq> Some ''assistant'' then scan ls seen_req api_calls
      else (case t_message d of
              None \<Rightarrow> scan ls seen_req api_calls
            | Some msg \<Rightarrow>
                (case m_usage msg of
                   None \<Rightarrow> scan ls seen_req api_calls
                 | Some usage \<Rightarrow>
                     (let req_id = t_requestId d in
                      if req_id \<in> seen_req then scan ls seen_req api_calls
                      else scan ls (insert req_id seen_req)
                             (api_calls @ [make_call d msg usage])))))"

record usage_summary =
  us_input_tokens :: int
  us_output_tokens :: int
  us_cache_creation_tokens :: int
  us_cache_read_tokens :: int
  us_api_calls :: nat
  us_model :: string
  us_context_by_turn :: "(string \<times> int) list"

text \<open>
  \<^verbatim>\<open>next((e["model"] for e in reversed(api_calls) if e["model"]), "")\<close>.
\<close>

definition last_model :: "api_call list \<Rightarrow> string" where
  "last_model api_calls =
     (case List.find (\<lambda>m. m \<noteq> []) (rev (map ac_model api_calls)) of
        Some m \<Rightarrow> m
      | None \<Rightarrow> [])"

definition summarise :: "api_call list \<Rightarrow> usage_summary" where
  "summarise api_calls =
     \<lparr>us_input_tokens = sum_list (map ac_input api_calls),
      us_output_tokens = sum_list (map ac_output api_calls),
      us_cache_creation_tokens = sum_list (map ac_cache_create api_calls),
      us_cache_read_tokens = sum_list (map ac_cache_read api_calls),
      us_api_calls = length api_calls,
      us_model = last_model api_calls,
      us_context_by_turn = map (\<lambda>e. (ac_ts e, ac_total_ctx e)) api_calls\<rparr>"

definition parse_real_usage :: "transcript \<Rightarrow> usage_summary option" where
  "parse_real_usage jsonl =
     (case jsonl of
        Unreadable \<Rightarrow> None
      | Lines ls \<Rightarrow>
          (case scan ls {} [] of
             None \<Rightarrow> None
           | Some api_calls \<Rightarrow> (if api_calls = [] then None else Some (summarise api_calls))))"

subsection \<open>Analysis\<close>

text \<open>
  A point of the context timeline. Its timestamp is the transcript's string in
  authoritative mode and the event's number in degraded mode.
\<close>

record ctx_point =
  cp_ts :: "string + real"
  cp_tokens :: int

text \<open>
  The result of \<^verbatim>\<open>analyse\<close>. The keys \<^verbatim>\<open>file_map\<close>, \<^verbatim>\<open>bash_commands\<close> and
  \<^verbatim>\<open>suggestions\<close>, which only feed the report, are left out.
\<close>

record analysis =
  a_duration_s :: real
  a_total_cost :: real
  a_peak_tokens :: int
  a_tool_calls :: nat
  a_api_calls :: nat
  a_time_by_category :: "string \<Rightarrow> real"
  a_total_timed :: real
  a_context_timeline :: "ctx_point list"
  a_model :: string
  a_using_real_data :: bool
  a_pricing :: rate_card
  a_inp_tok :: int
  a_out_tok :: int
  a_cc_tok :: int
  a_cr_tok :: int

text \<open>\<^verbatim>\<open>max(all_ts) - min(all_ts) if len(all_ts) > 1 else 0\<close>.\<close>

definition duration_of :: "event list \<Rightarrow> real" where
  "duration_of events =
     (let all_ts = map ev_ts events
      in if length all_ts > 1 then Max (set all_ts) - Min (set all_ts) else 0)"

text \<open>The \<^verbatim>\<open>Counter\<close> of elapsed time per category: absent keys count 0.\<close>

definition time_by_category :: "paired list \<Rightarrow> (string \<Rightarrow> real)" where
  "time_by_category ps =
     foldl (\<lambda>m p. m(p_category p := m (p_category p) + p_elapsed_s p)) (\<lambda>_. 0) ps"

text \<open>
  \<^verbatim>\<open>sum(time_by_category.values()) or 1\<close>: the values of the counter add up to the
  elapsed times of all pairs.
\<close>

definition total_timed :: "paired list \<Rightarrow> real" where
  "total_timed ps = (let s = sum_list (map p_elapsed_s ps) in if s = 0 then 1 else s)"

text \<open>\<^verbatim>\<open>max(..., default=0)\<close>.\<close>

definition max_default0 :: "int list \<Rightarrow> int" where
  "max_default0 xs = (case xs of [] \<Rightarrow> 0 | x # rest \<Rightarrow> fold max rest x)"

text \<open>
  The total cost of authoritative mode. \<^verbatim>\<open>pricing["input"]\<close> and
  \<^verbatim>\<open>pricing["output"]\<close> raise \<^verbatim>\<open>KeyError\<close> on a card without them; the two cache rates
  are read with \<^verbatim>\<open>pricing.get\<close> and a default derived from the input rate.
\<close>

definition authoritative_cost :: "rate_card \<Rightarrow> int \<Rightarrow> int \<Rightarrow> int \<Rightarrow> int \<Rightarrow> error + real" where
  "authoritative_cost pricing inp_tok out_tok cc_tok cr_tok =
     (case rc_input pricing of
        None \<Rightarrow> Inl KeyError
      | Some p_in \<Rightarrow>
          (case rc_output pricing of
             None \<Rightarrow> Inl KeyError
           | Some p_out \<Rightarrow>
               Inr ((real_of_int inp_tok * p_in
                     + real_of_int out_tok * p_out
                     + real_of_int cc_tok *
                         (case rc_cache_creation pricing of
                            Some r \<Rightarrow> r | None \<Rightarrow> p_in * (125 / 100))
                     + real_of_int cr_tok *
                         (case rc_cache_read pricing of
                            Some r \<Rightarrow> r | None \<Rightarrow> p_in * (1 / 10)))
                    / 1000000)))"

text \<open>
  The loop \<^verbatim>\<open>for i, ev in enumerate(sorted_events)\<close> of degraded mode; its state is
  \<^verbatim>\<open>(cumulative_tokens, total_cost, context_timeline)\<close>.
\<close>

fun degraded_loop ::
  "int \<Rightarrow> real \<Rightarrow> real \<Rightarrow> nat \<Rightarrow> nat \<Rightarrow> paired list \<Rightarrow>
   int \<times> real \<times> ctx_point list \<Rightarrow> int \<times> real \<times> ctx_point list" where
  "degraded_loop context_cap input_price output_price turn_count i [] st = st"
| "degraded_loop context_cap input_price output_price turn_count i (ev # evs)
     (cumulative_tokens, total_cost, context_timeline) =
     (let added = p_input_tokens ev + p_response_tokens ev;
          cumulative_tokens' = min (cumulative_tokens + added) context_cap;
          turns_remaining = int turn_count - int i;
          turn_cost =
            real_of_int (p_response_tokens ev) * input_price * real_of_int turns_remaining
            + real_of_int (p_response_tokens ev) * output_price
      in degraded_loop context_cap input_price output_price turn_count (Suc i) evs
           (cumulative_tokens', total_cost + turn_cost,
            context_timeline @ [\<lparr>cp_ts = Inr (p_ts ev), cp_tokens = cumulative_tokens'\<rparr>]))"

text \<open>
  Degraded mode from the resolved card on: the per-token prices, the stable sort by
  timestamp and the loop. It returns the total cost and the context timeline.
\<close>

definition degraded :: "rate_card \<Rightarrow> int \<Rightarrow> paired list \<Rightarrow> error + real \<times> ctx_point list" where
  "degraded pricing context_cap ps =
     (case rc_input pricing of
        None \<Rightarrow> Inl KeyError
      | Some p_in \<Rightarrow>
          (case rc_output pricing of
             None \<Rightarrow> Inl KeyError
           | Some p_out \<Rightarrow>
               (let input_price = p_in / 1000000;
                    output_price = p_out / 1000000;
                    sorted_events = sort_key p_ts ps;
                    turn_count = length sorted_events
                in case degraded_loop context_cap input_price output_price turn_count 0
                          sorted_events (0, 0, []) of
                     (cumulative_tokens, total_cost, context_timeline) \<Rightarrow>
                       Inr (total_cost, context_timeline))))"

text \<open>
  \<^verbatim>\<open>next((e.get("model") for e in events if e.get("model")), "claude-sonnet-4-6")\<close>.
\<close>

definition events_model :: "event list \<Rightarrow> string" where
  "events_model events =
     (case List.find (\<lambda>e. get_str (ev_model e) \<noteq> []) events of
        Some e \<Rightarrow> get_str (ev_model e)
      | None \<Rightarrow> ''claude-sonnet-4-6'')"

text \<open>
  \<^verbatim>\<open>analyse(events, pricing_models, pricing_aliases, context_cap, jsonl_path)\<close>. The
  last argument is \<open>None\<close> when no transcript was found for the session, and the
  transcript at the path otherwise. The result \<open>Inr None\<close> is the empty dictionary
  returned for an empty event list.
\<close>

definition analyse ::
  "event list \<Rightarrow> (string \<rightharpoonup> rate_card) \<Rightarrow> (string \<rightharpoonup> string) \<Rightarrow> int \<Rightarrow>
   transcript option \<Rightarrow> error + analysis option" where
  "analyse events pricing_models pricing_aliases context_cap jsonl_path =
     (if events = [] then Inr None
      else
        (let ps = paired_of events;
             real_usage = (case jsonl_path of None \<Rightarrow> None | Some t \<Rightarrow> parse_real_usage t)
         in case real_usage of
              Some ru \<Rightarrow>
                (let model = (if us_model ru \<noteq> [] then us_model ru else ''claude-sonnet-4-6'');
                     pricing = fst (price_for model pricing_models pricing_aliases)
                 in case authoritative_cost pricing (us_input_tokens ru) (us_output_tokens ru)
                           (us_cache_creation_tokens ru) (us_cache_read_tokens ru) of
                      Inl e \<Rightarrow> Inl e
                    | Inr total_cost \<Rightarrow>
                        (let context_timeline =
                               map (\<lambda>(ts, ctx). \<lparr>cp_ts = Inl ts, cp_tokens = ctx\<rparr>)
                                 (us_context_by_turn ru)
                         in Inr (Some
                              \<lparr>a_duration_s = duration_of events,
                               a_total_cost = total_cost,
                               a_peak_tokens = max_default0 (map cp_tokens context_timeline),
                               a_tool_calls = length ps,
                               a_api_calls = us_api_calls ru,
                               a_time_by_category = time_by_category ps,
                               a_total_timed = total_timed ps,
                               a_context_timeline = context_timeline,
                               a_model = model,
                               a_using_real_data = True,
                               a_pricing = pricing,
                               a_inp_tok = us_input_tokens ru,
                               a_out_tok = us_output_tokens ru,
                               a_cc_tok = us_cache_creation_tokens ru,
                               a_cr_tok = us_cache_read_tokens ru\<rparr>)))
            | None \<Rightarrow>
                (let model = events_model events;
                     pricing = fst (price_for model pricing_models pricing_aliases)
                 in case degraded pricing context_cap ps of
                      Inl e \<Rightarrow> Inl e
                    | Inr (total_cost, context_timeline) \<Rightarrow>
                        Inr (Some
                          \<lparr>a_duration_s = duration_of events,
                           a_total_cost = total_cost,
                           a_peak_tokens = max_default0 (map cp_tokens context_timeline),
                           a_tool_calls = length ps,
                           a_api_calls = length ps,
                           a_time_by_category = time_by_category ps,
                           a_total_timed = total_timed ps,
                           a_context_timeline = context_timeline,
                           a_model = model,
                           a_using_real_data = False,
                           a_pricing = pricing,
                           a_inp_tok = 0, a_out_tok = 0, a_cc_tok = 0, a_cr_tok = 0\<rparr>))))"

subsection \<open>Notions used to state the properties of the extractor\<close>

text \<open>
  The assistant-turn usage record of a line, if the line is one: an object of type
  \<^verbatim>\<open>assistant\<close> whose message has a \<^verbatim>\<open>usage\<close> key. \<open>usage_records\<close> lists them in
  file order.
\<close>

fun usage_record :: "jline \<Rightarrow> (entry \<times> message \<times> usage) option" where
  "usage_record (Object d) =
     (if t_type d = Some ''assistant''
      then (case t_message d of
              None \<Rightarrow> None
            | Some msg \<Rightarrow> (case m_usage msg of None \<Rightarrow> None | Some u \<Rightarrow> Some (d, msg, u)))
      else None)"
| "usage_record Blank = None"
| "usage_record Undecodable = None"
| "usage_record NotObject = None"

definition usage_records :: "jline list \<Rightarrow> (entry \<times> message \<times> usage) list" where
  "usage_records ls = List.map_filter usage_record ls"

definition req_of :: "entry \<times> message \<times> usage \<Rightarrow> string option" where
  "req_of r = t_requestId (fst r)"

definition call_of :: "entry \<times> message \<times> usage \<Rightarrow> api_call" where
  "call_of r = make_call (fst r) (fst (snd r)) (snd (snd r))"

text \<open>
  The first occurrences of a list under a key, in the words of the specification: the
  elements whose key is not the key of any earlier element, in the order of the list.
\<close>

definition first_occurrences :: "('a \<Rightarrow> 'k) \<Rightarrow> 'a list \<Rightarrow> 'a list" where
  "first_occurrences key rs =
     map (\<lambda>i. rs ! i) (filter (\<lambda>i. key (rs ! i) \<notin> key ` set (take i rs)) [0..<length rs])"

text \<open>
  The same selection written as the loop of the extractor writes it, with the set of
  keys seen so far; it links the loop to \<open>first_occurrences\<close> in the proofs.
\<close>

fun keep_new :: "('a \<Rightarrow> 'k) \<Rightarrow> 'k set \<Rightarrow> 'a list \<Rightarrow> 'a list" where
  "keep_new key seen [] = []"
| "keep_new key seen (r # rs) =
     (if key r \<in> seen then keep_new key seen rs
      else r # keep_new key (insert (key r) seen) rs)"

subsection \<open>Notions used to state the properties of degraded mode\<close>

text \<open>
  In the words of the specification: the marginal cost of invocation \<open>i\<close> of \<open>T\<close>, with
  \<open>turns_remaining = T - i\<close> and the rates per token, and the running cumulative-context
  counter, which adds the size of each invocation and is capped.
\<close>

definition spec_marginal_cost :: "real \<Rightarrow> real \<Rightarrow> nat \<Rightarrow> nat \<Rightarrow> paired \<Rightarrow> real" where
  "spec_marginal_cost input_rate output_rate T i ev =
     real_of_int (p_response_tokens ev) * input_rate * real (T - i)
     + real_of_int (p_response_tokens ev) * output_rate"

fun spec_running_counter :: "int \<Rightarrow> int \<Rightarrow> int list \<Rightarrow> int list" where
  "spec_running_counter cap c [] = []"
| "spec_running_counter cap c (a # as) =
     min (c + a) cap # spec_running_counter cap (min (c + a) cap) as"

subsection \<open>Notions used to state non-negativity and monotonicity of the cost\<close>

text \<open>A card with non-negative rates, and a table of such cards.\<close>

definition rate_nonneg :: "real option \<Rightarrow> bool" where
  "rate_nonneg v = (case v of None \<Rightarrow> True | Some r \<Rightarrow> 0 \<le> r)"

definition card_nonneg :: "rate_card \<Rightarrow> bool" where
  "card_nonneg c =
     (rate_nonneg (rc_input c) \<and> rate_nonneg (rc_output c)
      \<and> rate_nonneg (rc_cache_creation c) \<and> rate_nonneg (rc_cache_read c))"

text \<open>Non-negative token counts in a transcript, non-negative estimates in a log.\<close>

definition usage_nonneg :: "usage \<Rightarrow> bool" where
  "usage_nonneg u =
     (0 \<le> get0 (u_input_tokens u) \<and> 0 \<le> get0 (u_output_tokens u)
      \<and> 0 \<le> get0 (u_cache_creation_input_tokens u)
      \<and> 0 \<le> get0 (u_cache_read_input_tokens u))"

definition transcript_nonneg :: "transcript option \<Rightarrow> bool" where
  "transcript_nonneg jsonl =
     (case jsonl of
        Some (Lines ls) \<Rightarrow> list_all (\<lambda>r. usage_nonneg (snd (snd r))) (usage_records ls)
      | _ \<Rightarrow> True)"

definition events_nonneg :: "event list \<Rightarrow> bool" where
  "events_nonneg events = list_all (\<lambda>e. 0 \<le> get0 (ev_response_tokens e)) events"

text \<open>
  Two transcripts that differ only in token counts, the second having counts at least
  as large: line by line, the same kind of line, the same type, request identifier,
  timestamp and model, a usage in the one exactly when in the other, and each of the
  four counts (with its default 0) no smaller in the second.
\<close>

definition usage_le :: "usage \<Rightarrow> usage \<Rightarrow> bool" where
  "usage_le u u' =
     (get0 (u_input_tokens u) \<le> get0 (u_input_tokens u')
      \<and> get0 (u_output_tokens u) \<le> get0 (u_output_tokens u')
      \<and> get0 (u_cache_creation_input_tokens u) \<le> get0 (u_cache_creation_input_tokens u')
      \<and> get0 (u_cache_read_input_tokens u) \<le> get0 (u_cache_read_input_tokens u'))"

definition message_le :: "message \<Rightarrow> message \<Rightarrow> bool" where
  "message_le m m' = (m_model m = m_model m' \<and> rel_option usage_le (m_usage m) (m_usage m'))"

definition entry_le :: "entry \<Rightarrow> entry \<Rightarrow> bool" where
  "entry_le d d' =
     (t_type d = t_type d' \<and> t_requestId d = t_requestId d' \<and> t_timestamp d = t_timestamp d'
      \<and> rel_option message_le (t_message d) (t_message d'))"

fun line_le :: "jline \<Rightarrow> jline \<Rightarrow> bool" where
  "line_le (Object d) (Object d') = entry_le d d'"
| "line_le Blank Blank = True"
| "line_le Undecodable Undecodable = True"
| "line_le NotObject NotObject = True"
| "line_le _ _ = False"

fun transcript_le :: "transcript option \<Rightarrow> transcript option \<Rightarrow> bool" where
  "transcript_le None None = True"
| "transcript_le (Some Unreadable) (Some Unreadable) = True"
| "transcript_le (Some (Lines ls)) (Some (Lines ls')) = list_all2 line_le ls ls'"
| "transcript_le _ _ = False"

text \<open>
  Two events that differ at most in their estimates, the response estimate of the
  second being at least as large.
\<close>

definition event_le :: "event \<Rightarrow> event \<Rightarrow> bool" where
  "event_le e e' =
     (ev_type e = ev_type e' \<and> ev_ts e = ev_ts e' \<and> ev_tool e = ev_tool e'
      \<and> ev_session_id e = ev_session_id e' \<and> ev_file_path e = ev_file_path e'
      \<and> ev_command e = ev_command e' \<and> ev_model e = ev_model e'
      \<and> get0 (ev_input_tokens e) \<le> get0 (ev_input_tokens e')
      \<and> get0 (ev_response_tokens e) \<le> get0 (ev_response_tokens e'))"

text \<open>The same comparisons on the derived records; they are used in the proofs.\<close>

definition call_le :: "api_call \<Rightarrow> api_call \<Rightarrow> bool" where
  "call_le c c' =
     (ac_ts c = ac_ts c' \<and> ac_model c = ac_model c'
      \<and> ac_input c \<le> ac_input c' \<and> ac_output c \<le> ac_output c'
      \<and> ac_cache_create c \<le> ac_cache_create c' \<and> ac_cache_read c \<le> ac_cache_read c')"

definition record_le :: "entry \<times> message \<times> usage \<Rightarrow> entry \<times> message \<times> usage \<Rightarrow> bool" where
  "record_le r r' = (req_of r = req_of r' \<and> call_le (call_of r) (call_of r'))"

definition paired_le :: "paired \<Rightarrow> paired \<Rightarrow> bool" where
  "paired_le p p' = (p_ts p = p_ts p' \<and> p_response_tokens p \<le> p_response_tokens p')"

definition match_le :: "event \<times> event option \<Rightarrow> event \<times> event option \<Rightarrow> bool" where
  "match_le a b = (event_le (fst a) (fst b) \<and> rel_option event_le (snd a) (snd b))"

definition result_le :: "error + analysis option \<Rightarrow> error + analysis option \<Rightarrow> bool" where
  "result_le =
     rel_sum (=) (rel_option (\<lambda>r r'. a_using_real_data r = a_using_real_data r'
        \<and> a_total_cost r \<le> a_total_cost r'))"

subsection \<open>Example data\<close>

text \<open>A small rate-card table and alias table, used to instantiate the theorems.\<close>

definition ex_card :: rate_card where
  "ex_card =
     \<lparr>rc_input = Some 1, rc_output = Some 2, rc_cache_creation = None, rc_cache_read = None\<rparr>"

definition ex_models :: "string \<rightharpoonup> rate_card" where
  "ex_models = [''claude-sonnet-4-5'' \<mapsto> ex_card]"

definition ex_aliases :: "string \<rightharpoonup> string" where
  "ex_aliases = [''sonnet'' \<mapsto> ''claude-sonnet-4-5'']"

text \<open>A usage record of the transcript with a given request identifier and input count.\<close>

definition ex_entry :: "string option \<Rightarrow> int \<Rightarrow> entry" where
  "ex_entry rid n =
     \<lparr>t_type = Some ''assistant'',
      t_message = Some
        \<lparr>m_usage = Some
           \<lparr>u_input_tokens = Some n, u_output_tokens = Some 20,
            u_cache_creation_input_tokens = Some 3, u_cache_read_input_tokens = Some 4\<rparr>,
         m_model = Some ''claude-sonnet-4-5''\<rparr>,
      t_requestId = rid,
      t_timestamp = Some ''2025-01-01T00:00:00Z''\<rparr>"

text \<open>
  The session of the specification's scenario: one \<^verbatim>\<open>Read\<close> call, its \<^verbatim>\<open>pre\<close> event at
  time 0 with input estimate 100 and its \<^verbatim>\<open>post\<close> event at time 2 with output
  estimate 50.
\<close>

definition ex_pre :: event where
  "ex_pre =
     \<lparr>ev_type = ''pre'', ev_ts = 0, ev_tool = ''Read'', ev_session_id = ''s1'',
      ev_input_tokens = Some 100, ev_response_tokens = None,
      ev_file_path = Some ''a.py'', ev_command = None, ev_model = None\<rparr>"

definition ex_post :: event where
  "ex_post =
     \<lparr>ev_type = ''post'', ev_ts = 2, ev_tool = ''Read'', ev_session_id = ''s1'',
      ev_input_tokens = None, ev_response_tokens = Some 50,
      ev_file_path = None, ev_command = None, ev_model = None\<rparr>"

section \<open>Token estimation\<close>

text \<open>
  C10. The estimated token size of a value is the length of its string form divided by
  4 (integer division), capped at 50,000. Hence the estimate is between 0 and 50,000,
  and so are the \<^verbatim>\<open>input_tokens\<close> of every event written by \<^verbatim>\<open>mode_pre\<close> and the
  \<^verbatim>\<open>response_tokens\<close> of every event written by \<^verbatim>\<open>mode_post\<close>, however long the tool
  input or output is.
\<close>

theorem estimate_tokens_capped:
  "estimate_tokens text = min (int (length text) div 4) 50000
   \<and> 0 \<le> estimate_tokens text \<and> estimate_tokens text \<le> 50000
   \<and> (\<exists>n. ev_input_tokens (mode_pre now sid tool_name text fp pa fn cmd) = Some n
          \<and> 0 \<le> n \<and> n \<le> 50000)
   \<and> (\<exists>n. ev_response_tokens (mode_post now sid tool_name text rm) = Some n
          \<and> 0 \<le> n \<and> n \<le> 50000)"
  by (simp add: estimate_tokens_def MAX_RESPONSE_TOKENS_def mode_pre_def mode_post_def)

section \<open>Pricing resolution\<close>

subsection \<open>Splitting at dashes and joining again\<close>

lemma split_dash_not_Nil: "split_dash s \<noteq> []"
  by (induction s) (auto split: list.splits)

lemma join_dash_Cons: "ps \<noteq> [] \<Longrightarrow> join_dash (p # ps) = p @ CHR ''-'' # join_dash ps"
  by (cases ps) auto

lemma join_dash_Cons_char: "join_dash ((c # p) # ps) = c # join_dash (p # ps)"
  by (cases ps) auto

lemma join_split_dash: "join_dash (split_dash s) = s"
proof (induction s)
  case Nil
  then show ?case by simp
next
  case (Cons c cs)
  show ?case
  proof (cases "c = CHR ''-''")
    case True
    then show ?thesis using Cons split_dash_not_Nil [of cs] by (simp add: join_dash_Cons)
  next
    case False
    obtain p ps where sp: "split_dash cs = p # ps"
      using split_dash_not_Nil [of cs] by (cases "split_dash cs") auto
    with False Cons show ?thesis by (simp add: join_dash_Cons_char)
  qed
qed

lemma join_dash_take_prefix: "prefix (join_dash (take k ps)) (join_dash ps)"
proof (induction ps arbitrary: k rule: join_dash.induct)
  case 1
  then show ?case by simp
next
  case (2 p)
  then show ?case by (cases k) auto
next
  case (3 p q ps)
  show ?case
  proof (cases k)
    case 0
    then show ?thesis by simp
  next
    case (Suc j)
    show ?thesis
    proof (cases j)
      case 0
      with Suc show ?thesis by simp
    next
      case (Suc i)
      have "take k (p # q # ps) = p # take j (q # ps)" using \<open>k = Suc j\<close> by simp
      moreover have "take j (q # ps) \<noteq> []" using Suc by simp
      ultimately have "join_dash (take k (p # q # ps)) = p @ CHR ''-'' # join_dash (take j (q # ps))"
        by (simp add: join_dash_Cons)
      then show ?thesis using 3 [of j] by simp
    qed
  qed
qed

lemma no_dash_in_split: "p \<in> set (split_dash s) \<Longrightarrow> CHR ''-'' \<notin> set p"
  by (induction s arbitrary: p) (auto split: list.splits if_splits)

lemma prefix_loop_found:
  "3 \<le> k \<Longrightarrow> k \<le> n \<Longrightarrow> md (join_dash (take k parts)) = Some c \<Longrightarrow>
   (\<forall>j. k < j \<and> j \<le> n \<longrightarrow> md (join_dash (take j parts)) = None) \<Longrightarrow>
   prefix_loop md parts n = Some c"
proof (induction md parts n rule: prefix_loop.induct)
  case (1 md parts n)
  show ?case
  proof (cases "k = n")
    case True
    with 1 show ?thesis by (simp add: prefix_loop.simps [of md parts n])
  next
    case False
    with 1 have "k < n" "md (join_dash (take n parts)) = None" by auto
    moreover have "prefix_loop md parts (n - 1) = Some c"
      using 1 \<open>k < n\<close> by (intro 1(1)) auto
    ultimately show ?thesis using 1(2) by (simp add: prefix_loop.simps [of md parts n])
  qed
qed

lemma prefix_loop_none:
  "(\<forall>j. 3 \<le> j \<and> j \<le> n \<longrightarrow> md (join_dash (take j parts)) = None) \<Longrightarrow>
   prefix_loop md parts n = None"
proof (induction md parts n rule: prefix_loop.induct)
  case (1 md parts n)
  show ?case
  proof (cases "n \<le> 2")
    case True
    then show ?thesis by (simp add: prefix_loop.simps [of md parts n])
  next
    case False
    then have "md (join_dash (take n parts)) = None" using 1(2) by auto
    moreover have "prefix_loop md parts (n - 1) = None"
      using 1 False by (intro 1(1)) auto
    ultimately show ?thesis using False by (simp add: prefix_loop.simps [of md parts n])
  qed
qed

subsection \<open>Precedence\<close>

text \<open>
  C3 (as amended). Pricing resolution follows this precedence, first match wins:
  (1) an exact match of the identifier in the rate-card table; (2) the identifier's
  alias-table target, when that target is not the empty string and is in the rate-card
  table; (3) the dash-delimited prefixes of the identifier, longest first, down to 3
  segments: the card of the longest prefix of at least 3 segments that is in the table;
  (4) the fallback card, with the warning. Every candidate of rule (3) is a prefix of
  the identifier.
\<close>

theorem price_for_precedence:
  "(md model = Some c \<longrightarrow> price_for model md ad = (c, False))
   \<and> (md model = None \<and> ad model = Some t \<and> t \<noteq> [] \<and> md t = Some c
        \<longrightarrow> price_for model md ad = (c, False))
   \<and> (md model = None \<and> (\<forall>r. ad model = Some r \<and> r \<noteq> [] \<longrightarrow> md r = None)
        \<and> 3 \<le> k \<and> k \<le> length (split_dash model)
        \<and> md (join_dash (take k (split_dash model))) = Some c
        \<and> (\<forall>j. k < j \<and> j \<le> length (split_dash model)
               \<longrightarrow> md (join_dash (take j (split_dash model))) = None)
        \<longrightarrow> price_for model md ad = (c, False))
   \<and> (md model = None \<and> (\<forall>r. ad model = Some r \<and> r \<noteq> [] \<longrightarrow> md r = None)
        \<and> (\<forall>j. 3 \<le> j \<and> j \<le> length (split_dash model)
               \<longrightarrow> md (join_dash (take j (split_dash model))) = None)
        \<longrightarrow> price_for model md ad = (FALLBACK_PRICING, True))
   \<and> prefix (join_dash (take k (split_dash model))) model"
proof -
  have unresolved: "alias_lookup model md ad = None"
    if "\<forall>r. ad model = Some r \<and> r \<noteq> [] \<longrightarrow> md r = None"
    using that by (auto simp: alias_lookup_def split: option.splits)
  have r1: "md model = Some c \<longrightarrow> price_for model md ad = (c, False)"
    by (simp add: price_for_def)
  have r2: "md model = None \<and> ad model = Some t \<and> t \<noteq> [] \<and> md t = Some c
        \<longrightarrow> price_for model md ad = (c, False)"
    by (simp add: price_for_def alias_lookup_def)
  have r3: "md model = None \<and> (\<forall>r. ad model = Some r \<and> r \<noteq> [] \<longrightarrow> md r = None)
        \<and> 3 \<le> k \<and> k \<le> length (split_dash model)
        \<and> md (join_dash (take k (split_dash model))) = Some c
        \<and> (\<forall>j. k < j \<and> j \<le> length (split_dash model)
               \<longrightarrow> md (join_dash (take j (split_dash model))) = None)
        \<longrightarrow> price_for model md ad = (c, False)"
  proof (intro impI, elim conjE)
    assume a: "md model = None" "\<forall>r. ad model = Some r \<and> r \<noteq> [] \<longrightarrow> md r = None"
      "3 \<le> k" "k \<le> length (split_dash model)"
      "md (join_dash (take k (split_dash model))) = Some c"
      "\<forall>j. k < j \<and> j \<le> length (split_dash model)
          \<longrightarrow> md (join_dash (take j (split_dash model))) = None"
    have "prefix_loop md (split_dash model) (length (split_dash model)) = Some c"
      using a(3-6) by (rule prefix_loop_found)
    then show "price_for model md ad = (c, False)"
      using a(1) unresolved [OF a(2)] by (simp add: price_for_def)
  qed
  have r4: "md model = None \<and> (\<forall>r. ad model = Some r \<and> r \<noteq> [] \<longrightarrow> md r = None)
        \<and> (\<forall>j. 3 \<le> j \<and> j \<le> length (split_dash model)
               \<longrightarrow> md (join_dash (take j (split_dash model))) = None)
        \<longrightarrow> price_for model md ad = (FALLBACK_PRICING, True)"
  proof (intro impI, elim conjE)
    assume a: "md model = None" "\<forall>r. ad model = Some r \<and> r \<noteq> [] \<longrightarrow> md r = None"
      "\<forall>j. 3 \<le> j \<and> j \<le> length (split_dash model)
          \<longrightarrow> md (join_dash (take j (split_dash model))) = None"
    have "prefix_loop md (split_dash model) (length (split_dash model)) = None"
      using a(3) by (rule prefix_loop_none)
    then show "price_for model md ad = (FALLBACK_PRICING, True)"
      using a(1) unresolved [OF a(2)] by (simp add: price_for_def)
  qed
  have r5: "prefix (join_dash (take k (split_dash model))) model"
    using join_dash_take_prefix [of k "split_dash model"] by (simp add: join_split_dash)
  from r1 r2 r3 r4 r5 show ?thesis by blast
qed

theorem price_for_precedence_witness:
  "price_for ''claude-sonnet-4-5'' ex_models ex_aliases = (ex_card, False)
   \<and> price_for ''sonnet'' ex_models ex_aliases = (ex_card, False)
   \<and> price_for ''claude-sonnet-4-5-20250929'' ex_models ex_aliases = (ex_card, False)
   \<and> price_for ''gpt-4-turbo'' ex_models ex_aliases = (FALLBACK_PRICING, True)"
proof -
  have unresolved: "\<forall>r. ex_aliases m = Some r \<and> r \<noteq> [] \<longrightarrow> ex_models r = None"
    if "m \<noteq> ''sonnet''" for m
    using that by (simp add: ex_aliases_def)
  have e1: "ex_models ''claude-sonnet-4-5'' = Some ex_card"
    by (simp add: ex_models_def)
  have e2: "ex_models ''sonnet'' = None \<and> ex_aliases ''sonnet'' = Some ''claude-sonnet-4-5''
      \<and> ''claude-sonnet-4-5'' \<noteq> [] \<and> ex_models ''claude-sonnet-4-5'' = Some ex_card"
    by (simp add: ex_models_def ex_aliases_def)
  have sp: "split_dash ''claude-sonnet-4-5-20250929'' = [''claude'', ''sonnet'', ''4'', ''5'', ''20250929'']"
    by simp
  have longer: "\<forall>j. 4 < j \<and> j \<le> length (split_dash ''claude-sonnet-4-5-20250929'')
      \<longrightarrow> ex_models (join_dash (take j (split_dash ''claude-sonnet-4-5-20250929''))) = None"
  proof (intro allI impI)
    fix j :: nat
    assume "4 < j \<and> j \<le> length (split_dash ''claude-sonnet-4-5-20250929'')"
    then have "j = 5" unfolding sp by simp
    then show "ex_models (join_dash (take j (split_dash ''claude-sonnet-4-5-20250929''))) = None"
      unfolding sp by (simp add: ex_models_def)
  qed
  have e3: "ex_models ''claude-sonnet-4-5-20250929'' = None
      \<and> (\<forall>r. ex_aliases ''claude-sonnet-4-5-20250929'' = Some r \<and> r \<noteq> [] \<longrightarrow> ex_models r = None)
      \<and> 3 \<le> (4::nat) \<and> 4 \<le> length (split_dash ''claude-sonnet-4-5-20250929'')
      \<and> ex_models (join_dash (take 4 (split_dash ''claude-sonnet-4-5-20250929''))) = Some ex_card
      \<and> (\<forall>j. 4 < j \<and> j \<le> length (split_dash ''claude-sonnet-4-5-20250929'')
            \<longrightarrow> ex_models (join_dash (take j (split_dash ''claude-sonnet-4-5-20250929''))) = None)"
    using longer unresolved [of "''claude-sonnet-4-5-20250929''"]
    by (simp add: ex_models_def)
  have sp4: "split_dash ''gpt-4-turbo'' = [''gpt'', ''4'', ''turbo'']"
    by simp
  have none4: "\<forall>j. 3 \<le> j \<and> j \<le> length (split_dash ''gpt-4-turbo'')
      \<longrightarrow> ex_models (join_dash (take j (split_dash ''gpt-4-turbo''))) = None"
  proof (intro allI impI)
    fix j :: nat
    assume "3 \<le> j \<and> j \<le> length (split_dash ''gpt-4-turbo'')"
    then have "j = 3" unfolding sp4 by simp
    then show "ex_models (join_dash (take j (split_dash ''gpt-4-turbo''))) = None"
      unfolding sp4 by (simp add: ex_models_def)
  qed
  have e4: "ex_models ''gpt-4-turbo'' = None
      \<and> (\<forall>r. ex_aliases ''gpt-4-turbo'' = Some r \<and> r \<noteq> [] \<longrightarrow> ex_models r = None)
      \<and> (\<forall>j. 3 \<le> j \<and> j \<le> length (split_dash ''gpt-4-turbo'')
            \<longrightarrow> ex_models (join_dash (take j (split_dash ''gpt-4-turbo''))) = None)"
    using none4 unresolved [of "''gpt-4-turbo''"] by (simp add: ex_models_def)
  have "price_for ''claude-sonnet-4-5'' ex_models ex_aliases = (ex_card, False)"
    using price_for_precedence [of ex_models "''claude-sonnet-4-5''" ex_card ex_aliases] e1
    by blast
  moreover have "price_for ''sonnet'' ex_models ex_aliases = (ex_card, False)"
    using price_for_precedence
      [of ex_models "''sonnet''" ex_card ex_aliases "''claude-sonnet-4-5''"] e2
    by blast
  moreover have "price_for ''claude-sonnet-4-5-20250929'' ex_models ex_aliases = (ex_card, False)"
    using price_for_precedence
      [of ex_models "''claude-sonnet-4-5-20250929''" ex_card ex_aliases _ 4] e3
    by blast
  moreover have "price_for ''gpt-4-turbo'' ex_models ex_aliases = (FALLBACK_PRICING, True)"
    using price_for_precedence [of ex_models "''gpt-4-turbo''" _ ex_aliases] e4
    by blast
  ultimately show ?thesis by blast
qed

text \<open>
  The claim as stated fails where the alias target is the empty string: the table has
  a card under the empty identifier, the alias of \<open>x\<close> is the empty identifier, and the
  resolution of \<open>x\<close> falls through to the fallback card with a warning.
\<close>

theorem price_for_empty_alias_target:
  "[[] \<mapsto> ex_card] ''x'' = None
   \<and> [''x'' \<mapsto> []] ''x'' = Some []
   \<and> [[] \<mapsto> ex_card] [] = Some ex_card
   \<and> price_for ''x'' [[] \<mapsto> ex_card] [''x'' \<mapsto> []] = (FALLBACK_PRICING, True)
   \<and> ex_card \<noteq> FALLBACK_PRICING"
  by (simp add: price_for_def alias_lookup_def prefix_loop.simps ex_card_def
      FALLBACK_PRICING_def)

section \<open>The usage extractor\<close>

subsection \<open>The loop keeps the first occurrence of every request identifier\<close>

lemma usage_records_simps [simp]:
  "usage_records [] = []"
  "usage_records (l # ls) = (case usage_record l of None \<Rightarrow> usage_records ls | Some r \<Rightarrow> r # usage_records ls)"
  "usage_records (xs @ ys) = usage_records xs @ usage_records ys"
  by (simp_all add: usage_records_def List.map_filter_def split: option.splits)

lemma req_of_simp [simp]: "req_of (d, msg, u) = t_requestId d"
  by (simp add: req_of_def)

lemma call_of_simp [simp]: "call_of (d, msg, u) = make_call d msg u"
  by (simp add: call_of_def)

lemma scan_keep_new:
  "scan ls seen calls =
     (if NotObject \<in> set ls then None
      else Some (calls @ map call_of (keep_new req_of seen (usage_records ls))))"
  by (induction ls seen calls rule: scan.induct)
     (auto simp: Let_def split: option.splits)

lemma keep_new_index:
  "keep_new key seen rs =
     map (\<lambda>i. rs ! i)
       (filter (\<lambda>i. key (rs ! i) \<notin> seen \<union> key ` set (take i rs)) [0..<length rs])"
proof (induction rs arbitrary: seen)
  case Nil
  then show ?case by simp
next
  case (Cons r rs)
  have upt: "[0..<length (r # rs)] = 0 # map Suc [0..<length rs]"
    by (simp add: upt_conv_Cons map_Suc_upt del: upt_Suc)
  have same: "(\<lambda>i. key (rs ! i) \<notin> seen \<and> key (rs ! i) \<noteq> key r
                    \<and> key (rs ! i) \<notin> key ` set (take i rs))
              = (\<lambda>i. key (rs ! i) \<notin> seen \<and> key (rs ! i) \<notin> key ` set (take i rs))"
    if "key r \<in> seen"
    using that by (intro ext) auto
  show ?case
    unfolding upt
    by (simp add: Cons filter_map comp_def insert_absorb conj_comms same)
qed

lemma keep_new_first_occurrences: "keep_new key {} rs = first_occurrences key rs"
  by (simp add: keep_new_index first_occurrences_def)

lemma keep_new_append:
  "keep_new key seen (xs @ ys) = keep_new key seen xs @ keep_new key (seen \<union> key ` set xs) ys"
  by (induction xs arbitrary: seen) (auto simp: insert_absorb)

lemma usage_record_Some: "usage_record (Object d) = Some r \<Longrightarrow> req_of r = t_requestId d"
  by (auto split: if_splits option.splits)

lemma keep_new_drop_dup:
  "key r' \<in> seen \<union> key ` set xs \<Longrightarrow> keep_new key seen (xs @ r' # zs) = keep_new key seen (xs @ zs)"
  by (simp add: keep_new_append)

lemma scan_later_duplicate:
  assumes "usage_record (Object d) \<noteq> None" and "t_requestId d' = t_requestId d"
  shows "scan (xs @ Object d # ys @ Object d' # zs) seen calls
         = scan (xs @ Object d # ys @ zs) seen calls"
proof -
  from assms(1) obtain r where r: "usage_record (Object d) = Some r" by blast
  then have key: "req_of r = t_requestId d" by (rule usage_record_Some)
  show ?thesis
  proof (cases "usage_record (Object d')")
    case None
    then show ?thesis using r by (simp add: scan_keep_new)
  next
    case (Some r')
    then have "req_of r' = t_requestId d'" by (rule usage_record_Some)
    with key assms(2) have "req_of r' \<in> seen \<union> req_of ` set (usage_records xs @ r # usage_records ys)"
      by simp
    then have "keep_new req_of seen ((usage_records xs @ r # usage_records ys) @ r' # usage_records zs)
        = keep_new req_of seen ((usage_records xs @ r # usage_records ys) @ usage_records zs)"
      by (rule keep_new_drop_dup)
    then show ?thesis using r Some by (simp add: scan_keep_new)
  qed
qed

lemma scan_duplicate_block:
  assumes "usage_record (Object d) \<noteq> None"
  shows "(\<forall>l\<in>set dups. \<exists>d'. l = Object d' \<and> t_requestId d' = t_requestId d) \<Longrightarrow>
     scan (xs @ Object d # dups @ ys) seen calls = scan (xs @ Object d # ys) seen calls"
proof (induction dups rule: rev_induct)
  case Nil
  then show ?case by simp
next
  case (snoc l dups)
  then obtain d' where l: "l = Object d'" "t_requestId d' = t_requestId d" by auto
  have "scan (xs @ Object d # (dups @ [l]) @ ys) seen calls
        = scan (xs @ Object d # dups @ Object d' # ys) seen calls"
    using l by simp
  also have "\<dots> = scan (xs @ Object d # dups @ ys) seen calls"
    using assms l(2) by (rule scan_later_duplicate)
  also have "\<dots> = scan (xs @ Object d # ys) seen calls"
    using snoc by simp
  finally show ?case .
qed

lemma scan_first_occurrences:
  "scan ls {} [] =
     (if NotObject \<in> set ls then None
      else Some (map call_of (first_occurrences req_of (usage_records ls))))"
  by (simp add: scan_keep_new keep_new_first_occurrences)

lemma first_occurrences_Nil_iff: "first_occurrences key rs = [] \<longleftrightarrow> rs = []"
  unfolding keep_new_first_occurrences [symmetric] by (cases rs) auto

lemma parse_real_usage_Lines:
  "parse_real_usage (Lines ls) =
     (if NotObject \<in> set ls \<or> usage_records ls = [] then None
      else Some (summarise (map call_of (first_occurrences req_of (usage_records ls)))))"
  by (simp add: parse_real_usage_def scan_first_occurrences first_occurrences_Nil_iff)

lemma summarise_sums:
  "us_input_tokens (summarise (map call_of rs)) = sum_list (map (\<lambda>r. get0 (u_input_tokens (snd (snd r)))) rs)"
  "us_output_tokens (summarise (map call_of rs)) = sum_list (map (\<lambda>r. get0 (u_output_tokens (snd (snd r)))) rs)"
  "us_cache_creation_tokens (summarise (map call_of rs)) = sum_list (map (\<lambda>r. get0 (u_cache_creation_input_tokens (snd (snd r)))) rs)"
  "us_cache_read_tokens (summarise (map call_of rs)) = sum_list (map (\<lambda>r. get0 (u_cache_read_input_tokens (snd (snd r)))) rs)"
  by (simp_all add: summarise_def call_of_def make_call_def comp_def Let_def)

text \<open>
  C1. Among the assistant-turn usage records of a transcript that share a request
  identifier, only the first one in file order contributes to the four token sums: the
  summary is computed from the first occurrences. A later record with the request
  identifier of an earlier usage record changes nothing, wherever it stands, and neither
  does a block of such records: a transcript with several records of one request
  identifier yields the totals of the transcript with a single one.
\<close>

theorem first_request_only:
  "parse_real_usage (Lines ls) =
     (if NotObject \<in> set ls \<or> usage_records ls = [] then None
      else Some (summarise (map call_of (first_occurrences req_of (usage_records ls)))))
   \<and> (\<forall>s. parse_real_usage (Lines ls) = Some s \<longrightarrow>
         us_input_tokens s =
           sum_list (map (\<lambda>r. get0 (u_input_tokens (snd (snd r))))
             (first_occurrences req_of (usage_records ls)))
         \<and> us_output_tokens s =
           sum_list (map (\<lambda>r. get0 (u_output_tokens (snd (snd r))))
             (first_occurrences req_of (usage_records ls)))
         \<and> us_cache_creation_tokens s =
           sum_list (map (\<lambda>r. get0 (u_cache_creation_input_tokens (snd (snd r))))
             (first_occurrences req_of (usage_records ls)))
         \<and> us_cache_read_tokens s =
           sum_list (map (\<lambda>r. get0 (u_cache_read_input_tokens (snd (snd r))))
             (first_occurrences req_of (usage_records ls))))
   \<and> (usage_record (Object d) \<noteq> None \<and> t_requestId d' = t_requestId d \<longrightarrow>
         parse_real_usage (Lines (xs @ Object d # ys @ Object d' # zs))
         = parse_real_usage (Lines (xs @ Object d # ys @ zs)))
   \<and> (usage_record (Object d) \<noteq> None
        \<and> (\<forall>l\<in>set dups. \<exists>e. l = Object e \<and> t_requestId e = t_requestId d) \<longrightarrow>
         parse_real_usage (Lines (xs @ Object d # dups @ ys))
         = parse_real_usage (Lines (xs @ Object d # ys)))"
proof -
  have a: "parse_real_usage (Lines ls) =
     (if NotObject \<in> set ls \<or> usage_records ls = [] then None
      else Some (summarise (map call_of (first_occurrences req_of (usage_records ls)))))"
    by (rule parse_real_usage_Lines)
  have b: "\<forall>s. parse_real_usage (Lines ls) = Some s \<longrightarrow>
         us_input_tokens s =
           sum_list (map (\<lambda>r. get0 (u_input_tokens (snd (snd r))))
             (first_occurrences req_of (usage_records ls)))
         \<and> us_output_tokens s =
           sum_list (map (\<lambda>r. get0 (u_output_tokens (snd (snd r))))
             (first_occurrences req_of (usage_records ls)))
         \<and> us_cache_creation_tokens s =
           sum_list (map (\<lambda>r. get0 (u_cache_creation_input_tokens (snd (snd r))))
             (first_occurrences req_of (usage_records ls)))
         \<and> us_cache_read_tokens s =
           sum_list (map (\<lambda>r. get0 (u_cache_read_input_tokens (snd (snd r))))
             (first_occurrences req_of (usage_records ls)))"
    unfolding a by (auto simp: summarise_sums split: if_splits)
  have c: "usage_record (Object d) \<noteq> None \<and> t_requestId d' = t_requestId d \<longrightarrow>
         parse_real_usage (Lines (xs @ Object d # ys @ Object d' # zs))
         = parse_real_usage (Lines (xs @ Object d # ys @ zs))"
    by (simp add: parse_real_usage_def scan_later_duplicate)
  have d: "usage_record (Object d) \<noteq> None
        \<and> (\<forall>l\<in>set dups. \<exists>e. l = Object e \<and> t_requestId e = t_requestId d) \<longrightarrow>
         parse_real_usage (Lines (xs @ Object d # dups @ ys))
         = parse_real_usage (Lines (xs @ Object d # ys))"
    by (simp add: parse_real_usage_def scan_duplicate_block)
  from a b c d show ?thesis by blast
qed

theorem first_request_only_witness:
  "parse_real_usage (Lines [Object (ex_entry (Some ''r1'') 10), Object (ex_entry (Some ''r1'') 10),
          Object (ex_entry (Some ''r1'') 10), Object (ex_entry (Some ''r2'') 7)])
   = parse_real_usage (Lines [Object (ex_entry (Some ''r1'') 10), Object (ex_entry (Some ''r2'') 7)])
   \<and> parse_real_usage (Lines [Object (ex_entry (Some ''r1'') 10), Object (ex_entry (Some ''r2'') 7),
          Object (ex_entry (Some ''r1'') 99)])
   = parse_real_usage (Lines [Object (ex_entry (Some ''r1'') 10), Object (ex_entry (Some ''r2'') 7)])
   \<and> (\<exists>s. parse_real_usage (Lines [Object (ex_entry (Some ''r1'') 10), Object (ex_entry (Some ''r1'') 10),
          Object (ex_entry (Some ''r1'') 10), Object (ex_entry (Some ''r2'') 7)]) = Some s
         \<and> us_api_calls s = 2 \<and> us_input_tokens s = 17 \<and> us_output_tokens s = 40
         \<and> us_cache_creation_tokens s = 6 \<and> us_cache_read_tokens s = 8)"
proof -
  let ?r1 = "Object (ex_entry (Some ''r1'') 10)"
  let ?r2 = "Object (ex_entry (Some ''r2'') 7)"
  let ?r3 = "Object (ex_entry (Some ''r1'') 99)"
  let ?ls = "[?r1, ?r1, ?r1, ?r2]"
  have h: "usage_record ?r1 \<noteq> None
      \<and> (\<forall>l\<in>set [?r1, ?r1]. \<exists>e. l = Object e \<and> t_requestId e = t_requestId (ex_entry (Some ''r1'') 10))"
    by (simp add: ex_entry_def)
  have "parse_real_usage (Lines ([] @ ?r1 # [?r1, ?r1] @ [?r2]))
        = parse_real_usage (Lines ([] @ ?r1 # [?r2]))"
    using first_request_only [of _ "ex_entry (Some ''r1'') 10" _ _ _ _ "[?r1, ?r1]"] h by blast
  then have 1: "parse_real_usage (Lines ?ls) = parse_real_usage (Lines [?r1, ?r2])"
    by simp
  have h2: "usage_record ?r1 \<noteq> None
      \<and> t_requestId (ex_entry (Some ''r1'') 99) = t_requestId (ex_entry (Some ''r1'') 10)"
    by (simp add: ex_entry_def)
  have "parse_real_usage (Lines ([] @ ?r1 # [?r2] @ ?r3 # []))
        = parse_real_usage (Lines ([] @ ?r1 # [?r2] @ []))"
    using first_request_only
      [of _ "ex_entry (Some ''r1'') 10" "ex_entry (Some ''r1'') 99" "[]" "[?r2]" "[]"] h2
    by blast
  then have 2: "parse_real_usage (Lines [?r1, ?r2, ?r3]) = parse_real_usage (Lines [?r1, ?r2])"
    by simp
  obtain s where s: "parse_real_usage (Lines ?ls) = Some s" "us_api_calls s = 2"
    by (simp add: parse_real_usage_def ex_entry_def summarise_def)
  have recs: "usage_records ?ls = map (\<lambda>l. the (usage_record l)) ?ls"
    by (simp add: ex_entry_def)
  have firsts: "first_occurrences req_of (usage_records ?ls)
      = [the (usage_record ?r1), the (usage_record ?r2)]"
    unfolding recs by (simp add: first_occurrences_def ex_entry_def)
  have sums: "us_input_tokens s =
           sum_list (map (\<lambda>r. get0 (u_input_tokens (snd (snd r))))
             (first_occurrences req_of (usage_records ?ls)))
         \<and> us_output_tokens s =
           sum_list (map (\<lambda>r. get0 (u_output_tokens (snd (snd r))))
             (first_occurrences req_of (usage_records ?ls)))
         \<and> us_cache_creation_tokens s =
           sum_list (map (\<lambda>r. get0 (u_cache_creation_input_tokens (snd (snd r))))
             (first_occurrences req_of (usage_records ?ls)))
         \<and> us_cache_read_tokens s =
           sum_list (map (\<lambda>r. get0 (u_cache_read_input_tokens (snd (snd r))))
             (first_occurrences req_of (usage_records ?ls)))"
    using first_request_only [of ?ls] s(1) by blast
  have 3: "us_input_tokens s = 17 \<and> us_output_tokens s = 40
         \<and> us_cache_creation_tokens s = 6 \<and> us_cache_read_tokens s = 8"
    using sums unfolding firsts by (simp add: ex_entry_def get0_def)
  from 1 2 3 s show ?thesis by blast
qed

subsection \<open>Records without a request identifier\<close>

lemma keep_new_subseq: "subseq (keep_new key seen rs) rs"
  by (induction rs arbitrary: seen) auto

lemma keep_new_filter_key:
  "filter (\<lambda>r. key r = k) (keep_new key seen rs) =
     (if k \<in> seen then [] else take 1 (filter (\<lambda>r. key r = k) rs))"
proof (induction rs arbitrary: seen)
  case Nil
  then show ?case by simp
next
  case (Cons r rs)
  show ?case
  proof (cases "key r \<in> seen")
    case True
    then show ?thesis using Cons [of seen] by auto
  next
    case False
    then show ?thesis using Cons [of "insert (key r) seen"] by auto
  qed
qed

text \<open>
  C9. The usage records that lack a request identifier share the key \<^verbatim>\<open>None\<close>: of
  all of them the loop retains exactly the first, and every later one is discarded,
  whatever its usage figures, so that it contributes neither to the token sums nor to
  the context timeline.
\<close>

theorem records_without_request_id:
  "(NotObject \<notin> set ls \<longrightarrow>
      (\<exists>kept. scan ls {} [] = Some (map call_of kept)
         \<and> subseq kept (usage_records ls)
         \<and> filter (\<lambda>r. req_of r = None) kept
             = take 1 (filter (\<lambda>r. req_of r = None) (usage_records ls))))
   \<and> (usage_record (Object d) \<noteq> None \<and> t_requestId d = None \<and> t_requestId d' = None \<longrightarrow>
         parse_real_usage (Lines (xs @ Object d # ys @ Object d' # zs))
         = parse_real_usage (Lines (xs @ Object d # ys @ zs)))"
proof -
  have a: "NotObject \<notin> set ls \<longrightarrow>
      (\<exists>kept. scan ls {} [] = Some (map call_of kept)
         \<and> subseq kept (usage_records ls)
         \<and> filter (\<lambda>r. req_of r = None) kept
             = take 1 (filter (\<lambda>r. req_of r = None) (usage_records ls)))"
  proof
    assume "NotObject \<notin> set ls"
    then have "scan ls {} [] = Some (map call_of (keep_new req_of {} (usage_records ls)))"
      by (simp add: scan_keep_new)
    moreover have "subseq (keep_new req_of {} (usage_records ls)) (usage_records ls)"
      by (rule keep_new_subseq)
    moreover have "filter (\<lambda>r. req_of r = None) (keep_new req_of {} (usage_records ls))
        = take 1 (filter (\<lambda>r. req_of r = None) (usage_records ls))"
      by (simp add: keep_new_filter_key)
    ultimately show "\<exists>kept. scan ls {} [] = Some (map call_of kept)
         \<and> subseq kept (usage_records ls)
         \<and> filter (\<lambda>r. req_of r = None) kept
             = take 1 (filter (\<lambda>r. req_of r = None) (usage_records ls))"
      by blast
  qed
  have b: "usage_record (Object d) \<noteq> None \<and> t_requestId d = None \<and> t_requestId d' = None \<longrightarrow>
         parse_real_usage (Lines (xs @ Object d # ys @ Object d' # zs))
         = parse_real_usage (Lines (xs @ Object d # ys @ zs))"
    by (simp add: parse_real_usage_def scan_later_duplicate)
  from a b show ?thesis by blast
qed

theorem records_without_request_id_witness:
  "(\<exists>kept. scan [Object (ex_entry None 10), Object (ex_entry (Some ''r1'') 5),
                  Object (ex_entry None 7)] {} [] = Some (map call_of kept)
       \<and> length (filter (\<lambda>r. req_of r = None) kept) = 1)
   \<and> parse_real_usage
        (Lines [Object (ex_entry None 10), Object (ex_entry (Some ''r1'') 5), Object (ex_entry None 7)])
     = parse_real_usage (Lines [Object (ex_entry None 10), Object (ex_entry (Some ''r1'') 5)])
   \<and> (\<exists>s. parse_real_usage
        (Lines [Object (ex_entry None 10), Object (ex_entry (Some ''r1'') 5), Object (ex_entry None 7)])
        = Some s \<and> us_api_calls s = 2 \<and> us_input_tokens s = 15
          \<and> map snd (us_context_by_turn s) = [17, 12])"
proof -
  let ?a = "Object (ex_entry None 10)"
  let ?b = "Object (ex_entry (Some ''r1'') 5)"
  let ?c = "Object (ex_entry None 7)"
  have h1: "NotObject \<notin> set [?a, ?b, ?c]" by simp
  have recs: "length (take 1 (filter (\<lambda>r. req_of r = None) (usage_records [?a, ?b, ?c]))) = 1"
    by (simp add: ex_entry_def)
  obtain kept where kept: "scan [?a, ?b, ?c] {} [] = Some (map call_of kept)"
      "filter (\<lambda>r. req_of r = None) kept
         = take 1 (filter (\<lambda>r. req_of r = None) (usage_records [?a, ?b, ?c]))"
    using records_without_request_id [of "[?a, ?b, ?c]"] h1 by blast
  have 1: "\<exists>kept. scan [?a, ?b, ?c] {} [] = Some (map call_of kept)
       \<and> length (filter (\<lambda>r. req_of r = None) kept) = 1"
    using kept recs by metis
  have h2: "usage_record ?a \<noteq> None \<and> t_requestId (ex_entry None 10) = None
      \<and> t_requestId (ex_entry None 7) = None"
    by (simp add: ex_entry_def)
  have "parse_real_usage (Lines ([] @ ?a # [?b] @ ?c # []))
      = parse_real_usage (Lines ([] @ ?a # [?b] @ []))"
    using records_without_request_id [of _ "ex_entry None 10" "ex_entry None 7" "[]" "[?b]" "[]"] h2
    by blast
  then have 2: "parse_real_usage (Lines [?a, ?b, ?c]) = parse_real_usage (Lines [?a, ?b])"
    by simp
  have 3: "\<exists>s. parse_real_usage (Lines [?a, ?b, ?c]) = Some s \<and> us_api_calls s = 2
      \<and> us_input_tokens s = 15 \<and> map snd (us_context_by_turn s) = [17, 12]"
    unfolding 2
    by (simp add: parse_real_usage_def ex_entry_def summarise_def make_call_def get0_def get_str_def)
  from 1 2 3 show ?thesis by blast
qed

section \<open>Mode selection\<close>

lemma analyse_no_usage:
  "parse_real_usage t = None \<Longrightarrow>
   analyse events pm pa cap (Some t) = analyse events pm pa cap None"
  by (simp add: analyse_def)

lemma analyse_degraded_flag:
  "analyse events pm pa cap None = Inr (Some res) \<Longrightarrow> \<not> a_using_real_data res"
  by (auto simp: analyse_def Let_def split: if_splits sum.splits prod.splits)

lemma degraded_returns:
  "rc_input pricing = Some p_in \<Longrightarrow> rc_output pricing = Some p_out \<Longrightarrow>
   \<exists>r. degraded pricing cap ps = Inr r"
  by (simp add: degraded_def Let_def split: prod.splits)

lemma analyse_degraded_returns:
  assumes "events \<noteq> []"
    and "rc_input (fst (price_for (events_model events) pm pa)) \<noteq> None"
    and "rc_output (fst (price_for (events_model events) pm pa)) \<noteq> None"
  shows "\<exists>res. analyse events pm pa cap None = Inr (Some res)"
proof -
  from assms(2,3) obtain p_in p_out where
    "rc_input (fst (price_for (events_model events) pm pa)) = Some p_in"
    "rc_output (fst (price_for (events_model events) pm pa)) = Some p_out"
    by auto
  then obtain r where "degraded (fst (price_for (events_model events) pm pa)) cap (paired_of events) = Inr r"
    using degraded_returns by blast
  then show ?thesis using assms(1)
    by (cases r) (simp add: analyse_def Let_def)
qed

text \<open>The example session resolves to the fallback card: its events name no model.\<close>

lemma price_default_fallback:
  "price_for ''claude-sonnet-4-6'' ex_models ex_aliases = (FALLBACK_PRICING, True)"
  by (simp add: price_for_def alias_lookup_def prefix_loop.simps ex_models_def ex_aliases_def)

lemma ex_events_model: "events_model [ex_pre, ex_post] = ''claude-sonnet-4-6''"
  by (simp add: events_model_def ex_pre_def ex_post_def get_str_def)

text \<open>
  C7. If the transcript cannot be read (opening it fails, or a line makes the loop
  raise) or no usage record is retained after filtering and deduplication, the
  extractor returns \<open>None\<close>, never a partial summary, and these are the only cases in
  which it does. The analysis then is the analysis without a transcript: whenever it
  returns a result, the authoritative-data flag of the result is false, and it does
  return one for a non-empty event list whose resolved card has an input and an output
  rate.
\<close>

theorem no_authoritative_data:
  "parse_real_usage Unreadable = None
   \<and> (NotObject \<in> set ls \<longrightarrow> parse_real_usage (Lines ls) = None)
   \<and> (first_occurrences req_of (usage_records ls) = [] \<longrightarrow> parse_real_usage (Lines ls) = None)
   \<and> (parse_real_usage (Lines ls) = None \<longrightarrow>
         NotObject \<in> set ls \<or> first_occurrences req_of (usage_records ls) = [])
   \<and> (parse_real_usage t = None \<longrightarrow>
         analyse events pm pa cap (Some t) = analyse events pm pa cap None
         \<and> (\<forall>res. analyse events pm pa cap (Some t) = Inr (Some res)
                \<longrightarrow> \<not> a_using_real_data res))
   \<and> (parse_real_usage t = None \<and> events \<noteq> []
        \<and> rc_input (fst (price_for (events_model events) pm pa)) \<noteq> None
        \<and> rc_output (fst (price_for (events_model events) pm pa)) \<noteq> None \<longrightarrow>
         (\<exists>res. analyse events pm pa cap (Some t) = Inr (Some res) \<and> \<not> a_using_real_data res))"
proof -
  have a: "parse_real_usage Unreadable = None"
    by (simp add: parse_real_usage_def)
  have b: "NotObject \<in> set ls \<longrightarrow> parse_real_usage (Lines ls) = None"
    by (simp add: parse_real_usage_Lines)
  have c: "first_occurrences req_of (usage_records ls) = [] \<longrightarrow> parse_real_usage (Lines ls) = None"
    by (simp add: parse_real_usage_Lines first_occurrences_Nil_iff)
  have d: "parse_real_usage (Lines ls) = None \<longrightarrow>
         NotObject \<in> set ls \<or> first_occurrences req_of (usage_records ls) = []"
    by (simp add: parse_real_usage_Lines first_occurrences_Nil_iff split: if_splits)
  have e: "parse_real_usage t = None \<longrightarrow>
         analyse events pm pa cap (Some t) = analyse events pm pa cap None
         \<and> (\<forall>res. analyse events pm pa cap (Some t) = Inr (Some res)
                \<longrightarrow> \<not> a_using_real_data res)"
    using analyse_no_usage [of t events pm pa cap] analyse_degraded_flag [of events pm pa cap]
    by auto
  have f: "parse_real_usage t = None \<and> events \<noteq> []
        \<and> rc_input (fst (price_for (events_model events) pm pa)) \<noteq> None
        \<and> rc_output (fst (price_for (events_model events) pm pa)) \<noteq> None \<longrightarrow>
         (\<exists>res. analyse events pm pa cap (Some t) = Inr (Some res) \<and> \<not> a_using_real_data res)"
    using analyse_no_usage [of t events pm pa cap] analyse_degraded_flag [of events pm pa cap]
      analyse_degraded_returns [of events pm pa cap]
    by metis
  from a b c d e f show ?thesis by blast
qed

theorem no_authoritative_data_witness:
  "parse_real_usage (Lines [Object (ex_entry (Some ''r1'') 10), NotObject]) = None
   \<and> parse_real_usage (Lines [Blank, Undecodable]) = None
   \<and> (NotObject \<in> set [Blank, Undecodable]
        \<or> first_occurrences req_of (usage_records [Blank, Undecodable]) = [])
   \<and> analyse [ex_pre, ex_post] ex_models ex_aliases CONTEXT_CAP (Some Unreadable)
       = analyse [ex_pre, ex_post] ex_models ex_aliases CONTEXT_CAP None
   \<and> (\<exists>res. analyse [ex_pre, ex_post] ex_models ex_aliases CONTEXT_CAP (Some Unreadable)
               = Inr (Some res) \<and> \<not> a_using_real_data res)"
proof -
  note inst = no_authoritative_data
    [of "[Object (ex_entry (Some ''r1'') 10), NotObject]" Unreadable "[ex_pre, ex_post]"
        ex_models ex_aliases CONTEXT_CAP]
  have h1: "NotObject \<in> set [Object (ex_entry (Some ''r1'') 10), NotObject]" by simp
  have 1: "parse_real_usage (Lines [Object (ex_entry (Some ''r1'') 10), NotObject]) = None"
    using inst h1 by blast
  have h2: "first_occurrences req_of (usage_records [Blank, Undecodable]) = []"
    by (simp add: first_occurrences_def)
  have 2: "parse_real_usage (Lines [Blank, Undecodable]) = None"
    using no_authoritative_data [of "[Blank, Undecodable]"] h2 by blast
  have h3: "parse_real_usage Unreadable = None \<and> [ex_pre, ex_post] \<noteq> []
      \<and> rc_input (fst (price_for (events_model [ex_pre, ex_post]) ex_models ex_aliases)) \<noteq> None
      \<and> rc_output (fst (price_for (events_model [ex_pre, ex_post]) ex_models ex_aliases)) \<noteq> None"
    by (simp add: ex_events_model price_default_fallback FALLBACK_PRICING_def parse_real_usage_def)
  have 3: "\<exists>res. analyse [ex_pre, ex_post] ex_models ex_aliases CONTEXT_CAP (Some Unreadable)
               = Inr (Some res) \<and> \<not> a_using_real_data res"
    using inst h3 by blast
  have 4: "NotObject \<in> set [Blank, Undecodable]
      \<or> first_occurrences req_of (usage_records [Blank, Undecodable]) = []"
    using no_authoritative_data [of "[Blank, Undecodable]"] 2 by blast
  have 5: "analyse [ex_pre, ex_post] ex_models ex_aliases CONTEXT_CAP (Some Unreadable)
       = analyse [ex_pre, ex_post] ex_models ex_aliases CONTEXT_CAP None"
    using inst h3 by blast
  from 1 2 3 4 5 show ?thesis by blast
qed

section \<open>Timing pairs\<close>

subsection \<open>The pool and the loop\<close>

lemma post_by_tool_filter:
  "post_by_tool posts t = filter (\<lambda>p. ev_tool p = t) posts"
  unfolding post_by_tool_def
  by (induction posts rule: rev_induct) auto

lemma find_match_Some:
  "find_match pre cands = Some m \<Longrightarrow> m \<in> set cands \<and> ev_ts pre < ev_ts m"
  by (auto simp: find_match_def find_Some_iff)

lemma pair_loop_fst: "map fst (pair_loop pres pool) = pres"
  by (induction pres arbitrary: pool) (auto simp: Let_def split: option.splits)

lemma pair_loop_sound:
  assumes "\<And>t p. p \<in> set (pool t) \<Longrightarrow> ev_tool p = t \<and> p \<in> S"
    and "(pre, Some post) \<in> set (pair_loop pres pool)"
  shows "post \<in> S \<and> ev_tool post = ev_tool pre \<and> ev_ts pre < ev_ts post"
  using assms
proof (induction pres arbitrary: pool)
  case Nil
  then show ?case by simp
next
  case (Cons a pres)
  show ?case
  proof (cases "find_match a (pool (ev_tool a))")
    case None
    with Cons.prems(2) have "(pre, Some post) \<in> set (pair_loop pres pool)" by (simp add: Let_def)
    with Cons.IH Cons.prems(1) show ?thesis by blast
  next
    case (Some m)
    let ?pool = "pool(ev_tool a := remove1 m (pool (ev_tool a)))"
    have inv: "ev_tool p = t \<and> p \<in> S" if "p \<in> set (?pool t)" for t p
      using that Cons.prems(1) notin_set_remove1 [of p "pool (ev_tool a)" m]
      by (cases "t = ev_tool a") auto
    from Some Cons.prems(2) consider "pre = a" "post = m"
      | "(pre, Some post) \<in> set (pair_loop pres ?pool)"
      by (auto simp: Let_def)
    then show ?thesis
    proof cases
      case 1
      then show ?thesis using find_match_Some [OF Some] Cons.prems(1) by auto
    next
      case 2
      with Cons.IH [of ?pool] inv show ?thesis by blast
    qed
  qed
qed

lemma pair_loop_per_tool:
  "mset (List.map_filter snd (filter (\<lambda>pm. ev_tool (fst pm) = t) (pair_loop pres pool)))
     \<subseteq># mset (pool t)"
proof (induction pres arbitrary: pool)
  case Nil
  then show ?case by (simp add: map_filter_simps)
next
  case (Cons a pres)
  show ?case
  proof (cases "find_match a (pool (ev_tool a))")
    case None
    then show ?thesis using Cons [of pool] by (simp add: map_filter_simps Let_def)
  next
    case (Some m)
    let ?pool = "pool(ev_tool a := remove1 m (pool (ev_tool a)))"
    have m_in: "m \<in> set (pool (ev_tool a))" using find_match_Some [OF Some] by simp
    show ?thesis
    proof (cases "ev_tool a = t")
      case True
      have "mset (List.map_filter snd (filter (\<lambda>pm. ev_tool (fst pm) = t) (pair_loop pres ?pool)))
          \<subseteq># mset (pool t) - {#m#}"
        using Cons [of ?pool] True by (simp add: fun_upd_def)
      then have "add_mset m (mset (List.map_filter snd
            (filter (\<lambda>pm. ev_tool (fst pm) = t) (pair_loop pres ?pool))))
          \<subseteq># mset (pool t)"
        using m_in True by (metis insert_DiffM mset_subset_eq_add_mset_cancel set_mset_mset)
      then show ?thesis using Some True by (simp add: map_filter_simps Let_def fun_upd_def)
    next
      case False
      then show ?thesis using Some Cons [of ?pool] by (simp add: map_filter_simps Let_def fun_upd_def)
    qed
  qed
qed

lemma map_filter_snd_filter_tool:
  assumes "\<And>pre post. (pre, Some post) \<in> set M \<Longrightarrow> ev_tool post = ev_tool pre"
  shows "List.map_filter snd (filter (\<lambda>pm. ev_tool (fst pm) = t) M)
       = filter (\<lambda>p. ev_tool p = t) (List.map_filter snd M)"
  using assms
proof (induction M)
  case Nil
  then show ?case by (simp add: map_filter_simps)
next
  case (Cons x M)
  obtain pre m where x: "x = (pre, m)" by (cases x)
  have IH: "List.map_filter snd (filter (\<lambda>pm. ev_tool (fst pm) = t) M)
       = filter (\<lambda>p. ev_tool p = t) (List.map_filter snd M)"
    using Cons by auto
  show ?case
  proof (cases m)
    case None
    then show ?thesis using x IH by (simp add: map_filter_simps)
  next
    case (Some post)
    then have "ev_tool post = ev_tool pre" using Cons.prems x by auto
    then show ?thesis using x Some IH by (simp add: map_filter_simps)
  qed
qed

lemma matching_sound:
  "(pre, Some post) \<in> set (matching events) \<Longrightarrow>
   post \<in> set (post_events events) \<and> ev_tool post = ev_tool pre \<and> ev_ts pre < ev_ts post"
  unfolding matching_def
  by (rule pair_loop_sound [where pool = "post_by_tool (post_events events)"])
     (auto simp: post_by_tool_filter)

lemma matching_no_reuse:
  "mset (List.map_filter snd (matching events)) \<subseteq># mset (post_events events)"
proof (rule mset_subset_eqI)
  fix x :: event
  let ?M = "matching events" and ?t = "ev_tool x"
  have tool: "ev_tool post = ev_tool pre" if "(pre, Some post) \<in> set ?M" for pre post
    using matching_sound [OF that] by simp
  have "count (mset (List.map_filter snd ?M)) x
      = count (mset (filter (\<lambda>p. ev_tool p = ?t) (List.map_filter snd ?M))) x"
    by simp
  also have "\<dots> = count (mset (List.map_filter snd (filter (\<lambda>pm. ev_tool (fst pm) = ?t) ?M))) x"
    using map_filter_snd_filter_tool [of ?M ?t] tool by simp
  also have "\<dots> \<le> count (mset (post_by_tool (post_events events) ?t)) x"
    unfolding matching_def by (rule mset_subset_eq_count [OF pair_loop_per_tool])
  also have "\<dots> = count (mset (post_events events)) x"
    by (simp add: post_by_tool_filter)
  finally show "count (mset (List.map_filter snd ?M)) x \<le> count (mset (post_events events)) x" .
qed

subsection \<open>No event is used twice\<close>

text \<open>
  C2. The pairing has exactly one entry for each \<^verbatim>\<open>pre\<close> event, in the order of the log,
  so a \<^verbatim>\<open>pre\<close> event is matched to at most one \<^verbatim>\<open>post\<close> event. A match is a \<^verbatim>\<open>post\<close>
  event of the log, of the same tool, with a strictly greater timestamp. The matched
  \<^verbatim>\<open>post\<close> events, counted with multiplicity, are among the \<^verbatim>\<open>post\<close> events of the log:
  no \<^verbatim>\<open>post\<close> event is consumed by two \<^verbatim>\<open>pre\<close> events. An unmatched \<^verbatim>\<open>pre\<close> event has
  elapsed time 0 and the empty match (no response tokens, no file path of a match).
\<close>

theorem pairing_uses_each_event_once:
  "map fst (matching events) = pre_events events
   \<and> (\<forall>(pre, m)\<in>set (matching events).
         case m of
           Some post \<Rightarrow>
             post \<in> set (post_events events) \<and> ev_tool post = ev_tool pre
             \<and> ev_ts pre < ev_ts post
         | None \<Rightarrow>
             p_elapsed_s (make_paired pre m) = 0 \<and> p_response_tokens (make_paired pre m) = 0
             \<and> p_file_path (make_paired pre m) = py_or (ev_file_path pre) None)
   \<and> mset (List.map_filter snd (matching events)) \<subseteq># mset (post_events events)
   \<and> paired_of events = map (\<lambda>(pre, m). make_paired pre m) (matching events)"
proof -
  have a: "map fst (matching events) = pre_events events"
    by (simp add: matching_def pair_loop_fst)
  have b: "\<forall>(pre, m)\<in>set (matching events).
         case m of
           Some post \<Rightarrow>
             post \<in> set (post_events events) \<and> ev_tool post = ev_tool pre
             \<and> ev_ts pre < ev_ts post
         | None \<Rightarrow>
             p_elapsed_s (make_paired pre m) = 0 \<and> p_response_tokens (make_paired pre m) = 0
             \<and> p_file_path (make_paired pre m) = py_or (ev_file_path pre) None"
    using matching_sound [of _ _ events]
    by (auto simp: make_paired_def split: option.splits)
  have c: "mset (List.map_filter snd (matching events)) \<subseteq># mset (post_events events)"
    by (rule matching_no_reuse)
  have d: "paired_of events = map (\<lambda>(pre, m). make_paired pre m) (matching events)"
    by (simp add: paired_of_def)
  from a b c d show ?thesis by blast
qed

theorem pairing_uses_each_event_once_witness:
  "matching [ex_pre, ex_post, ex_pre\<lparr>ev_ts := 3\<rparr>]
     = [(ex_pre, Some ex_post), (ex_pre\<lparr>ev_ts := 3\<rparr>, None)]
   \<and> ev_tool ex_post = ev_tool ex_pre \<and> ev_ts ex_pre < ev_ts ex_post
   \<and> map p_elapsed_s (paired_of [ex_pre, ex_post, ex_pre\<lparr>ev_ts := 3\<rparr>]) = [2, 0]
   \<and> map p_response_tokens (paired_of [ex_pre, ex_post, ex_pre\<lparr>ev_ts := 3\<rparr>]) = [50, 0]"
proof -
  let ?late = "ex_pre\<lparr>ev_ts := 3\<rparr>"
  let ?evs = "[ex_pre, ex_post, ?late]"
  note inst = pairing_uses_each_event_once [of ?evs]
  have m: "matching ?evs = [(ex_pre, Some ex_post), (?late, None)]"
    by (simp add: matching_def pre_events_def post_events_def post_by_tool_def find_match_def Let_def
        ex_pre_def ex_post_def)
  have in1: "(ex_pre, Some ex_post) \<in> set (matching ?evs)" unfolding m by simp
  have in2: "(?late, None) \<in> set (matching ?evs)" unfolding m by simp
  have 1: "ev_tool ex_post = ev_tool ex_pre \<and> ev_ts ex_pre < ev_ts ex_post"
    using inst in1 by fastforce
  have 2: "p_elapsed_s (make_paired ?late None) = 0 \<and> p_response_tokens (make_paired ?late None) = 0"
    using inst in2 by fastforce
  have p: "paired_of ?evs = [make_paired ex_pre (Some ex_post), make_paired ?late None]"
    using inst m by simp
  have 3: "p_elapsed_s (make_paired ex_pre (Some ex_post)) = 2
      \<and> p_response_tokens (make_paired ex_pre (Some ex_post)) = 50"
    by (simp add: make_paired_def ex_pre_def ex_post_def)
  from m 1 2 3 p show ?thesis by simp
qed

subsection \<open>Which event is selected\<close>

lemma find_remove1_first:
  "i < length xs \<Longrightarrow> P (xs ! i) \<Longrightarrow> \<forall>j<i. \<not> P (xs ! j) \<Longrightarrow>
   List.find P xs = Some (xs ! i) \<and> remove1 (xs ! i) xs = take i xs @ drop (Suc i) xs"
proof (induction xs arbitrary: i)
  case Nil
  then show ?case by simp
next
  case (Cons x xs)
  show ?case
  proof (cases i)
    case 0
    with Cons.prems show ?thesis by simp
  next
    case (Suc k)
    with Cons.prems have k: "k < length xs" "P (xs ! k)" "\<forall>j<k. \<not> P (xs ! j)" and nx: "\<not> P x"
      by auto
    from nx k(2) have "x \<noteq> xs ! k" by auto
    with Cons.IH [OF k] nx Suc show ?thesis by simp
  qed
qed

lemma sorted_first_later_least:
  fixes ts :: "real list"
  assumes "sorted ts" "i < length ts" "\<forall>j<i. ts ! j \<le> b" "c \<in> set ts" "b < c"
  shows "ts ! i \<le> c"
proof -
  from assms(4) obtain k where k: "k < length ts" "ts ! k = c" by (auto simp: in_set_conv_nth)
  have "i \<le> k"
  proof (rule ccontr)
    assume "\<not> i \<le> k"
    then have "ts ! k \<le> b" using assms(3) by auto
    with k assms(5) show False by simp
  qed
  then show ?thesis using assms(1) k by (auto simp: sorted_iff_nth_mono)
qed

lemma sorted_map_remove_nth:
  "sorted (map f xs) \<Longrightarrow> sorted (map f (take i xs @ drop (Suc i) xs))"
proof (induction xs arbitrary: i)
  case Nil
  then show ?case by simp
next
  case (Cons x xs)
  show ?case
  proof (cases i)
    case 0
    with Cons.prems show ?thesis by simp
  next
    case (Suc k)
    have "sorted (map f (take k xs @ drop (Suc k) xs))"
      using Cons by simp
    moreover have "\<forall>y\<in>set (take k xs @ drop (Suc k) xs). f x \<le> f y"
      using Cons.prems by (auto dest: in_set_takeD in_set_dropD)
    ultimately show ?thesis using Suc by auto
  qed
qed

lemma sorted_map_filter: "sorted (map f xs) \<Longrightarrow> sorted (map f (filter P xs))"
  by (induction xs) auto

text \<open>
  C6 (as amended). For a \<^verbatim>\<open>pre\<close> event processed by the loop, with the pool as it is at
  that moment: if no unconsumed \<^verbatim>\<open>post\<close> event of the tool has a later timestamp, the
  match is empty and the elapsed time is 0. Otherwise the selected event is the first one,
  in the order of the log, among the unconsumed \<^verbatim>\<open>post\<close> events of the same tool whose
  timestamp exceeds that of the \<^verbatim>\<open>pre\<close> event; it is removed from the pool, and the
  elapsed time is the difference of the timestamps. Where the tool's \<^verbatim>\<open>post\<close> events
  stand in the pool in non-decreasing order of timestamps, the selected event is also the
  earliest by timestamp, and the pool stays so ordered. The pool of a tool is initially
  the \<^verbatim>\<open>post\<close> events of that tool in log order, so it is ordered by timestamp when
  the log is.
\<close>

theorem first_later_post_event:
  "((\<forall>c\<in>set (pool (ev_tool pre)). ev_ts c \<le> ev_ts pre) \<longrightarrow>
       pair_loop (pre # pres) pool = (pre, None) # pair_loop pres pool
       \<and> p_elapsed_s (make_paired pre None) = 0)
   \<and> (i < length (pool (ev_tool pre)) \<and> ev_ts pre < ev_ts (pool (ev_tool pre) ! i)
        \<and> (\<forall>j<i. ev_ts (pool (ev_tool pre) ! j) \<le> ev_ts pre) \<longrightarrow>
       pair_loop (pre # pres) pool
         = (pre, Some (pool (ev_tool pre) ! i))
           # pair_loop pres
               (pool(ev_tool pre :=
                  take i (pool (ev_tool pre)) @ drop (Suc i) (pool (ev_tool pre))))
       \<and> p_elapsed_s (make_paired pre (Some (pool (ev_tool pre) ! i)))
           = ev_ts (pool (ev_tool pre) ! i) - ev_ts pre
       \<and> (sorted (map ev_ts (pool (ev_tool pre))) \<longrightarrow>
            (\<forall>c\<in>set (pool (ev_tool pre)).
                ev_ts pre < ev_ts c \<longrightarrow> ev_ts (pool (ev_tool pre) ! i) \<le> ev_ts c)
            \<and> sorted (map ev_ts
                 (take i (pool (ev_tool pre)) @ drop (Suc i) (pool (ev_tool pre))))))
   \<and> post_by_tool posts t = filter (\<lambda>p. ev_tool p = t) posts
   \<and> (sorted (map ev_ts posts) \<longrightarrow> sorted (map ev_ts (post_by_tool posts t)))"
proof -
  let ?cands = "pool (ev_tool pre)"
  have a: "(\<forall>c\<in>set ?cands. ev_ts c \<le> ev_ts pre) \<longrightarrow>
       pair_loop (pre # pres) pool = (pre, None) # pair_loop pres pool
       \<and> p_elapsed_s (make_paired pre None) = 0"
  proof
    assume "\<forall>c\<in>set ?cands. ev_ts c \<le> ev_ts pre"
    then have "find_match pre ?cands = None"
      by (auto simp: find_match_def find_None_iff)
    then show "pair_loop (pre # pres) pool = (pre, None) # pair_loop pres pool
       \<and> p_elapsed_s (make_paired pre None) = 0"
      by (simp add: Let_def make_paired_def)
  qed
  have b: "i < length ?cands \<and> ev_ts pre < ev_ts (?cands ! i)
        \<and> (\<forall>j<i. ev_ts (?cands ! j) \<le> ev_ts pre) \<longrightarrow>
       pair_loop (pre # pres) pool
         = (pre, Some (?cands ! i))
           # pair_loop pres (pool(ev_tool pre := take i ?cands @ drop (Suc i) ?cands))
       \<and> p_elapsed_s (make_paired pre (Some (?cands ! i))) = ev_ts (?cands ! i) - ev_ts pre
       \<and> (sorted (map ev_ts ?cands) \<longrightarrow>
            (\<forall>c\<in>set ?cands. ev_ts pre < ev_ts c \<longrightarrow> ev_ts (?cands ! i) \<le> ev_ts c)
            \<and> sorted (map ev_ts (take i ?cands @ drop (Suc i) ?cands)))"
  proof (intro impI, elim conjE)
    assume i: "i < length ?cands" "ev_ts pre < ev_ts (?cands ! i)"
      "\<forall>j<i. ev_ts (?cands ! j) \<le> ev_ts pre"
    have "\<forall>j<i. \<not> ev_ts pre < ev_ts (?cands ! j)"
      using i(3) by (auto simp: not_less)
    with i(1,2) have f: "List.find (\<lambda>c. ev_ts pre < ev_ts c) ?cands = Some (?cands ! i)
        \<and> remove1 (?cands ! i) ?cands = take i ?cands @ drop (Suc i) ?cands"
      by (intro find_remove1_first) auto
    then have 1: "pair_loop (pre # pres) pool
         = (pre, Some (?cands ! i))
           # pair_loop pres (pool(ev_tool pre := take i ?cands @ drop (Suc i) ?cands))"
      by (simp add: Let_def find_match_def)
    have 2: "p_elapsed_s (make_paired pre (Some (?cands ! i))) = ev_ts (?cands ! i) - ev_ts pre"
      by (simp add: make_paired_def)
    have 3: "sorted (map ev_ts ?cands) \<longrightarrow>
            (\<forall>c\<in>set ?cands. ev_ts pre < ev_ts c \<longrightarrow> ev_ts (?cands ! i) \<le> ev_ts c)
            \<and> sorted (map ev_ts (take i ?cands @ drop (Suc i) ?cands))"
    proof
      assume s: "sorted (map ev_ts ?cands)"
      have "ev_ts (?cands ! i) \<le> ev_ts c" if "c \<in> set ?cands" "ev_ts pre < ev_ts c" for c
        using sorted_first_later_least [of "map ev_ts ?cands" i "ev_ts pre" "ev_ts c"]
          s i that by simp
      then show "(\<forall>c\<in>set ?cands. ev_ts pre < ev_ts c \<longrightarrow> ev_ts (?cands ! i) \<le> ev_ts c)
            \<and> sorted (map ev_ts (take i ?cands @ drop (Suc i) ?cands))"
        using sorted_map_remove_nth [OF s] by blast
    qed
    from 1 2 3 show "pair_loop (pre # pres) pool
         = (pre, Some (?cands ! i))
           # pair_loop pres (pool(ev_tool pre := take i ?cands @ drop (Suc i) ?cands))
       \<and> p_elapsed_s (make_paired pre (Some (?cands ! i))) = ev_ts (?cands ! i) - ev_ts pre
       \<and> (sorted (map ev_ts ?cands) \<longrightarrow>
            (\<forall>c\<in>set ?cands. ev_ts pre < ev_ts c \<longrightarrow> ev_ts (?cands ! i) \<le> ev_ts c)
            \<and> sorted (map ev_ts (take i ?cands @ drop (Suc i) ?cands)))"
      by blast
  qed
  have c: "post_by_tool posts t = filter (\<lambda>p. ev_tool p = t) posts"
    by (rule post_by_tool_filter)
  have d: "sorted (map ev_ts posts) \<longrightarrow> sorted (map ev_ts (post_by_tool posts t))"
    by (simp add: post_by_tool_filter sorted_map_filter)
  from a b c d show ?thesis by blast
qed

theorem first_later_post_event_witness:
  "pair_loop [ex_pre\<lparr>ev_ts := 9\<rparr>] (post_by_tool [ex_post]) = [(ex_pre\<lparr>ev_ts := 9\<rparr>, None)]
   \<and> pair_loop [ex_pre] (post_by_tool [ex_post, ex_post\<lparr>ev_ts := 5\<rparr>])
       = [(ex_pre, Some ex_post)]
   \<and> p_elapsed_s (make_paired ex_pre (Some ex_post)) = 2
   \<and> ev_ts ex_post \<le> ev_ts (ex_post\<lparr>ev_ts := 5\<rparr>)
   \<and> sorted (map ev_ts (post_by_tool [ex_post, ex_post\<lparr>ev_ts := 5\<rparr>] ''Read''))"
proof -
  let ?late = "ex_pre\<lparr>ev_ts := 9\<rparr>"
  let ?p5 = "ex_post\<lparr>ev_ts := 5\<rparr>"
  let ?pool1 = "post_by_tool [ex_post]"
  let ?pool2 = "post_by_tool [ex_post, ?p5]"
  have tool: "ev_tool ?late = ''Read''" "ev_tool ex_pre = ''Read''"
    by (simp_all add: ex_pre_def)
  have p1: "?pool1 ''Read'' = [ex_post]"
    by (simp add: post_by_tool_def ex_post_def)
  have p2: "?pool2 ''Read'' = [ex_post, ?p5]"
    by (simp add: post_by_tool_def ex_post_def)
  have ts: "ev_ts ex_post = 2" "ev_ts ?p5 = 5" "ev_ts ex_pre = 0" "ev_ts ?late = 9"
    by (simp_all add: ex_post_def ex_pre_def)
  have h1: "\<forall>c\<in>set (?pool1 (ev_tool ?late)). ev_ts c \<le> ev_ts ?late"
    unfolding tool p1 by (simp add: ts)
  have "pair_loop [?late] ?pool1 = (?late, None) # pair_loop [] ?pool1"
    using first_later_post_event [of ?pool1 ?late "[]"] h1 by blast
  then have 1: "pair_loop [?late] ?pool1 = [(?late, None)]"
    by (simp only: pair_loop.simps(1))
  have h2: "0 < length (?pool2 (ev_tool ex_pre))
      \<and> ev_ts ex_pre < ev_ts (?pool2 (ev_tool ex_pre) ! 0)
      \<and> (\<forall>j<0. ev_ts (?pool2 (ev_tool ex_pre) ! j) \<le> ev_ts ex_pre)"
    unfolding tool p2 by (simp add: ts)
  have h3: "sorted (map ev_ts (?pool2 (ev_tool ex_pre)))"
    unfolding tool p2 by (simp add: ts)
  have in5: "?p5 \<in> set (?pool2 (ev_tool ex_pre))" "ev_ts ex_pre < ev_ts ?p5"
    unfolding tool p2 by (simp_all add: ts)
  note inst = first_later_post_event [of ?pool2 ex_pre "[]" 0]
  have "pair_loop [ex_pre] ?pool2
      = (ex_pre, Some (?pool2 (ev_tool ex_pre) ! 0))
        # pair_loop [] (?pool2(ev_tool ex_pre :=
            take 0 (?pool2 (ev_tool ex_pre)) @ drop (Suc 0) (?pool2 (ev_tool ex_pre))))"
    using inst h2 by blast
  then have 2: "pair_loop [ex_pre] ?pool2 = [(ex_pre, Some (?pool2 (ev_tool ex_pre) ! 0))]"
    by (simp only: pair_loop.simps(1))
  have 3: "p_elapsed_s (make_paired ex_pre (Some (?pool2 (ev_tool ex_pre) ! 0)))
      = ev_ts (?pool2 (ev_tool ex_pre) ! 0) - ev_ts ex_pre"
    using inst h2 by blast
  have 4: "ev_ts (?pool2 (ev_tool ex_pre) ! 0) \<le> ev_ts ?p5"
    using inst h2 h3 in5 by blast
  have h5: "sorted (map ev_ts [ex_post, ?p5])" by (simp add: ts)
  have 5: "sorted (map ev_ts (?pool2 ''Read''))"
    using first_later_post_event [of _ _ _ _ "[ex_post, ?p5]" "''Read''"] h5 by blast
  have nth0: "?pool2 (ev_tool ex_pre) ! 0 = ex_post"
    unfolding tool p2 by simp
  from 1 2 3 4 5 show ?thesis
    unfolding nth0 by (simp only: ts) simp
qed

text \<open>
  The claim as stated fails on a log that is not in timestamp order: the \<^verbatim>\<open>post\<close> event
  at time 5 stands before the one at time 2, and the \<^verbatim>\<open>pre\<close> event at time 0 is matched
  to the former although the latter is later than 0, unconsumed and earlier.
\<close>

theorem first_later_post_not_earliest:
  "matching [ex_pre, ex_post\<lparr>ev_ts := 5\<rparr>, ex_post] = [(ex_pre, Some (ex_post\<lparr>ev_ts := 5\<rparr>))]
   \<and> ex_post \<in> set (post_by_tool (post_events [ex_pre, ex_post\<lparr>ev_ts := 5\<rparr>, ex_post])
                       (ev_tool ex_pre))
   \<and> ev_tool ex_post = ev_tool ex_pre
   \<and> ev_ts ex_pre < ev_ts ex_post
   \<and> ev_ts ex_post < ev_ts (ex_post\<lparr>ev_ts := 5\<rparr>)"
  by (simp add: matching_def pre_events_def post_events_def post_by_tool_def find_match_def
      Let_def ex_pre_def ex_post_def)

section \<open>Authoritative mode\<close>

lemma authoritative_cost_value:
  assumes "rc_input pricing = Some p_in" "rc_output pricing = Some p_out"
    and "rc_cache_creation pricing = Some cc \<or> rc_cache_creation pricing = None \<and> cc = 125 / 100 * p_in"
    and "rc_cache_read pricing = Some cr \<or> rc_cache_read pricing = None \<and> cr = 1 / 10 * p_in"
  shows "authoritative_cost pricing i out c r =
     Inr ((real_of_int i * p_in + real_of_int out * p_out + real_of_int c * cc
           + real_of_int r * cr) / 1000000)"
  using assms by (auto simp: authoritative_cost_def)

lemma analyse_authoritative:
  assumes "events \<noteq> []" "parse_real_usage t = Some ru"
    and "authoritative_cost
           (fst (price_for (if us_model ru \<noteq> [] then us_model ru else ''claude-sonnet-4-6'') pm pa))
           (us_input_tokens ru) (us_output_tokens ru)
           (us_cache_creation_tokens ru) (us_cache_read_tokens ru) = Inr cost"
  shows "\<exists>res. analyse events pm pa cap (Some t) = Inr (Some res)
     \<and> a_using_real_data res \<and> a_total_cost res = cost
     \<and> a_pricing res = fst (price_for (if us_model ru \<noteq> [] then us_model ru else ''claude-sonnet-4-6'') pm pa)
     \<and> a_api_calls res = us_api_calls ru
     \<and> a_inp_tok res = us_input_tokens ru \<and> a_out_tok res = us_output_tokens ru
     \<and> a_cc_tok res = us_cache_creation_tokens ru \<and> a_cr_tok res = us_cache_read_tokens ru"
  using assms by (simp add: analyse_def Let_def)

lemma authoritative_cost_KeyError:
  "rc_input pricing = None \<or> rc_output pricing = None \<Longrightarrow>
   authoritative_cost pricing i out c r = Inl KeyError"
  by (auto simp: authoritative_cost_def split: option.splits)

lemma analyse_authoritative_error:
  assumes "events \<noteq> []" "parse_real_usage t = Some ru"
    and "authoritative_cost
           (fst (price_for (if us_model ru \<noteq> [] then us_model ru else ''claude-sonnet-4-6'') pm pa))
           (us_input_tokens ru) (us_output_tokens ru)
           (us_cache_creation_tokens ru) (us_cache_read_tokens ru) = Inl e"
  shows "analyse events pm pa cap (Some t) = Inl e"
  using assms by (simp add: analyse_def Let_def)

text \<open>
  C5. With a usage summary, the analysis runs in authoritative mode and its total cost
  is the sum over the four token classes of tokens times the class rate of the resolved
  card, divided by 1,000,000, where a card without a cache-creation rate counts
  1.25 times its input rate and a card without a cache-read rate counts 0.1 times its
  input rate. (A resolved card without an input or an output rate makes the analysis
  fail with \<open>KeyError\<close>.)
\<close>

theorem authoritative_total_cost:
  "(events \<noteq> [] \<and> parse_real_usage t = Some ru
     \<and> pricing = fst (price_for (if us_model ru \<noteq> [] then us_model ru
                                 else ''claude-sonnet-4-6'') pm pa)
     \<and> rc_input pricing = Some p_in \<and> rc_output pricing = Some p_out
     \<and> (rc_cache_creation pricing = Some cc
          \<or> rc_cache_creation pricing = None \<and> cc = 125 / 100 * p_in)
     \<and> (rc_cache_read pricing = Some cr
          \<or> rc_cache_read pricing = None \<and> cr = 1 / 10 * p_in)
    \<longrightarrow> (\<exists>res. analyse events pm pa cap (Some t) = Inr (Some res)
           \<and> a_using_real_data res
           \<and> a_pricing res = pricing
           \<and> a_total_cost res =
               (real_of_int (us_input_tokens ru) * p_in
                + real_of_int (us_output_tokens ru) * p_out
                + real_of_int (us_cache_creation_tokens ru) * cc
                + real_of_int (us_cache_read_tokens ru) * cr) / 1000000))
   \<and> (events \<noteq> [] \<and> parse_real_usage t = Some ru
       \<and> pricing = fst (price_for (if us_model ru \<noteq> [] then us_model ru
                                   else ''claude-sonnet-4-6'') pm pa)
       \<and> (rc_input pricing = None \<or> rc_output pricing = None)
      \<longrightarrow> analyse events pm pa cap (Some t) = Inl KeyError)"
proof -
  have a: "events \<noteq> [] \<and> parse_real_usage t = Some ru
     \<and> pricing = fst (price_for (if us_model ru \<noteq> [] then us_model ru
                                 else ''claude-sonnet-4-6'') pm pa)
     \<and> rc_input pricing = Some p_in \<and> rc_output pricing = Some p_out
     \<and> (rc_cache_creation pricing = Some cc
          \<or> rc_cache_creation pricing = None \<and> cc = 125 / 100 * p_in)
     \<and> (rc_cache_read pricing = Some cr
          \<or> rc_cache_read pricing = None \<and> cr = 1 / 10 * p_in)
    \<longrightarrow> (\<exists>res. analyse events pm pa cap (Some t) = Inr (Some res)
           \<and> a_using_real_data res
           \<and> a_pricing res = pricing
           \<and> a_total_cost res =
               (real_of_int (us_input_tokens ru) * p_in
                + real_of_int (us_output_tokens ru) * p_out
                + real_of_int (us_cache_creation_tokens ru) * cc
                + real_of_int (us_cache_read_tokens ru) * cr) / 1000000)"
  proof (intro impI, elim conjE)
    assume h: "events \<noteq> []" "parse_real_usage t = Some ru"
      "pricing = fst (price_for (if us_model ru \<noteq> [] then us_model ru
                                 else ''claude-sonnet-4-6'') pm pa)"
      "rc_input pricing = Some p_in" "rc_output pricing = Some p_out"
      "rc_cache_creation pricing = Some cc
          \<or> rc_cache_creation pricing = None \<and> cc = 125 / 100 * p_in"
      "rc_cache_read pricing = Some cr
          \<or> rc_cache_read pricing = None \<and> cr = 1 / 10 * p_in"
    have "authoritative_cost pricing (us_input_tokens ru) (us_output_tokens ru)
           (us_cache_creation_tokens ru) (us_cache_read_tokens ru) =
        Inr ((real_of_int (us_input_tokens ru) * p_in
                + real_of_int (us_output_tokens ru) * p_out
                + real_of_int (us_cache_creation_tokens ru) * cc
                + real_of_int (us_cache_read_tokens ru) * cr) / 1000000)"
      using h(4-7) by (rule authoritative_cost_value)
    then show "\<exists>res. analyse events pm pa cap (Some t) = Inr (Some res)
           \<and> a_using_real_data res
           \<and> a_pricing res = pricing
           \<and> a_total_cost res =
               (real_of_int (us_input_tokens ru) * p_in
                + real_of_int (us_output_tokens ru) * p_out
                + real_of_int (us_cache_creation_tokens ru) * cc
                + real_of_int (us_cache_read_tokens ru) * cr) / 1000000"
      using analyse_authoritative [OF h(1,2), of pm pa _ cap] h(3) by blast
  qed
  have b: "events \<noteq> [] \<and> parse_real_usage t = Some ru
       \<and> pricing = fst (price_for (if us_model ru \<noteq> [] then us_model ru
                                   else ''claude-sonnet-4-6'') pm pa)
       \<and> (rc_input pricing = None \<or> rc_output pricing = None)
      \<longrightarrow> analyse events pm pa cap (Some t) = Inl KeyError"
  proof (intro impI, elim conjE)
    assume h: "events \<noteq> []" "parse_real_usage t = Some ru"
      "pricing = fst (price_for (if us_model ru \<noteq> [] then us_model ru
                                   else ''claude-sonnet-4-6'') pm pa)"
      "rc_input pricing = None \<or> rc_output pricing = None"
    have "authoritative_cost pricing (us_input_tokens ru) (us_output_tokens ru)
           (us_cache_creation_tokens ru) (us_cache_read_tokens ru) = Inl KeyError"
      using h(4) by (rule authoritative_cost_KeyError)
    then show "analyse events pm pa cap (Some t) = Inl KeyError"
      using analyse_authoritative_error [OF h(1,2), of pm pa KeyError cap] h(3) by blast
  qed
  from a b show ?thesis by blast
qed

theorem authoritative_total_cost_witness:
  "(\<exists>res. analyse [ex_pre, ex_post] ex_models ex_aliases CONTEXT_CAP
            (Some (Lines [Object (ex_entry (Some ''r1'') 10), Object (ex_entry (Some ''r1'') 10),
                          Object (ex_entry (Some ''r2'') 7)])) = Inr (Some res)
       \<and> a_using_real_data res \<and> a_pricing res = ex_card
       \<and> a_total_cost res = (17 * 1 + 40 * 2 + 6 * (125 / 100) + 8 * (1 / 10)) / 1000000)
   \<and> analyse [ex_pre, ex_post] [''claude-sonnet-4-5'' \<mapsto> ex_card\<lparr>rc_input := None\<rparr>] ex_aliases
        CONTEXT_CAP
        (Some (Lines [Object (ex_entry (Some ''r1'') 10), Object (ex_entry (Some ''r1'') 10),
                      Object (ex_entry (Some ''r2'') 7)])) = Inl KeyError"
proof -
  let ?t = "Lines [Object (ex_entry (Some ''r1'') 10), Object (ex_entry (Some ''r1'') 10),
                   Object (ex_entry (Some ''r2'') 7)]"
  let ?ru = "\<lparr>us_input_tokens = 17, us_output_tokens = 40, us_cache_creation_tokens = 6,
              us_cache_read_tokens = 8, us_api_calls = 2, us_model = ''claude-sonnet-4-5'',
              us_context_by_turn = [(''2025-01-01T00:00:00Z'', 17), (''2025-01-01T00:00:00Z'', 14)]\<rparr>"
  let ?bad = "[''claude-sonnet-4-5'' \<mapsto> ex_card\<lparr>rc_input := None\<rparr>]"
  have ru: "parse_real_usage ?t = Some ?ru"
    by (simp add: parse_real_usage_def ex_entry_def summarise_def make_call_def get0_def
        get_str_def last_model_def)
  have pr: "fst (price_for (if us_model ?ru \<noteq> [] then us_model ?ru else ''claude-sonnet-4-6'')
                  ex_models ex_aliases) = ex_card"
    by (simp add: price_for_def ex_models_def)
  have h1: "[ex_pre, ex_post] \<noteq> [] \<and> parse_real_usage ?t = Some ?ru
     \<and> ex_card = fst (price_for (if us_model ?ru \<noteq> [] then us_model ?ru
                                 else ''claude-sonnet-4-6'') ex_models ex_aliases)
     \<and> rc_input ex_card = Some 1 \<and> rc_output ex_card = Some 2
     \<and> (rc_cache_creation ex_card = Some (125 / 100)
          \<or> rc_cache_creation ex_card = None \<and> (125 / 100 :: real) = 125 / 100 * 1)
     \<and> (rc_cache_read ex_card = Some (1 / 10)
          \<or> rc_cache_read ex_card = None \<and> (1 / 10 :: real) = 1 / 10 * 1)"
    using ru pr by (simp add: ex_card_def)
  have 1: "\<exists>res. analyse [ex_pre, ex_post] ex_models ex_aliases CONTEXT_CAP (Some ?t)
            = Inr (Some res)
       \<and> a_using_real_data res \<and> a_pricing res = ex_card
       \<and> a_total_cost res = (17 * 1 + 40 * 2 + 6 * (125 / 100) + 8 * (1 / 10)) / 1000000"
    using authoritative_total_cost
      [of "[ex_pre, ex_post]" ?t ?ru ex_card ex_models ex_aliases 1 2 "125 / 100" "1 / 10"
          CONTEXT_CAP] h1
    by simp
  have h2: "[ex_pre, ex_post] \<noteq> [] \<and> parse_real_usage ?t = Some ?ru
     \<and> ex_card\<lparr>rc_input := None\<rparr>
         = fst (price_for (if us_model ?ru \<noteq> [] then us_model ?ru
                           else ''claude-sonnet-4-6'') ?bad ex_aliases)
     \<and> (rc_input (ex_card\<lparr>rc_input := None\<rparr>) = None
          \<or> rc_output (ex_card\<lparr>rc_input := None\<rparr>) = None)"
    using ru by (simp add: price_for_def)
  have 2: "analyse [ex_pre, ex_post] ?bad ex_aliases CONTEXT_CAP (Some ?t) = Inl KeyError"
    using authoritative_total_cost
      [of "[ex_pre, ex_post]" ?t ?ru "ex_card\<lparr>rc_input := None\<rparr>" ?bad ex_aliases _ _ _ _
          CONTEXT_CAP] h2
    by blast
  from 1 2 show ?thesis by blast
qed

section \<open>Degraded mode\<close>

subsection \<open>The loop in closed form\<close>

lemma degraded_loop_cost:
  "fst (snd (degraded_loop cap ip op T i evs (cum, cost, tline))) =
     cost + (\<Sum>k<length evs.
        real_of_int (p_response_tokens (evs ! k)) * ip * real_of_int (int T - int (i + k))
        + real_of_int (p_response_tokens (evs ! k)) * op)"
proof (induction evs arbitrary: i cum cost tline)
  case Nil
  then show ?case by simp
next
  case (Cons e es)
  show ?case
    by (simp add: Let_def Cons sum.lessThan_Suc_shift ac_simps del: sum.lessThan_Suc)
qed

lemma degraded_loop_timeline:
  "snd (snd (degraded_loop cap ip op T i evs (cum, cost, tline))) =
     tline @ map2 (\<lambda>e c. \<lparr>cp_ts = Inr (p_ts e), cp_tokens = c\<rparr>) evs
            (spec_running_counter cap cum (map (\<lambda>e. p_input_tokens e + p_response_tokens e) evs))"
  by (induction evs arbitrary: i cum cost tline) (simp_all add: Let_def)

lemma length_spec_running_counter [simp]: "length (spec_running_counter cap c as) = length as"
  by (induction as arbitrary: c) simp_all

lemma max_default0_Max: "max_default0 xs = (if xs = [] then 0 else Max (set xs))"
  by (cases xs) (simp_all add: max_default0_def Max.set_eq_fold [symmetric])

lemma degraded_value:
  assumes "rc_input pricing = Some p_in" "rc_output pricing = Some p_out"
  shows "\<exists>tl. degraded pricing cap ps =
       Inr (\<Sum>i<length ps. spec_marginal_cost (p_in / 1000000) (p_out / 1000000) (length ps) i
                             (sort_key p_ts ps ! i), tl)
     \<and> map cp_tokens tl = spec_running_counter cap 0
          (map (\<lambda>e. p_input_tokens e + p_response_tokens e) (sort_key p_ts ps))
     \<and> map cp_ts tl = map (\<lambda>e. Inr (p_ts e)) (sort_key p_ts ps)"
proof -
  let ?s = "sort_key p_ts ps"
  let ?r = "degraded_loop cap (p_in / 1000000) (p_out / 1000000) (length ?s) 0 ?s (0, 0, [])"
  have cost: "fst (snd ?r) =
      (\<Sum>i<length ps. spec_marginal_cost (p_in / 1000000) (p_out / 1000000) (length ps) i (?s ! i))"
    unfolding degraded_loop_cost
    by (auto simp: spec_marginal_cost_def intro!: sum.cong) 
  have tl: "snd (snd ?r) = map2 (\<lambda>e c. \<lparr>cp_ts = Inr (p_ts e), cp_tokens = c\<rparr>) ?s
            (spec_running_counter cap 0 (map (\<lambda>e. p_input_tokens e + p_response_tokens e) ?s))"
    unfolding degraded_loop_timeline by simp
  have d: "degraded pricing cap ps = Inr (fst (snd ?r), snd (snd ?r))"
    using assms by (simp add: degraded_def Let_def split: prod.splits)
  have 1: "map cp_tokens (snd (snd ?r)) = spec_running_counter cap 0
          (map (\<lambda>e. p_input_tokens e + p_response_tokens e) ?s)"
    unfolding tl by (auto intro!: nth_equalityI)
  have 2: "map cp_ts (snd (snd ?r)) = map (\<lambda>e. Inr (p_ts e)) ?s"
    unfolding tl by (auto intro!: nth_equalityI)
  from d cost 1 2 show ?thesis
    by (intro exI [of _ "snd (snd ?r)"]) (simp add: prod_eq_iff)
qed

lemma analyse_degraded:
  assumes "events \<noteq> []"
    and "degraded (fst (price_for (events_model events) pm pa)) cap (paired_of events)
         = Inr (cost, tline)"
  shows "\<exists>res. analyse events pm pa cap None = Inr (Some res)
     \<and> \<not> a_using_real_data res \<and> a_total_cost res = cost \<and> a_context_timeline res = tline
     \<and> a_peak_tokens res = max_default0 (map cp_tokens tline)
     \<and> a_tool_calls res = length (paired_of events)
     \<and> a_api_calls res = length (paired_of events)
     \<and> a_time_by_category res = time_by_category (paired_of events)"
  using assms by (simp add: analyse_def Let_def)

lemma degraded_analysis:
  assumes ev: "events \<noteq> []"
    and js: "jsonl = None \<or> (\<exists>t. jsonl = Some t \<and> parse_real_usage t = None)"
    and pin: "rc_input (fst (price_for (events_model events) pm pa)) = Some p_in"
    and pout: "rc_output (fst (price_for (events_model events) pm pa)) = Some p_out"
  shows "\<exists>res. analyse events pm pa cap jsonl = Inr (Some res)
        \<and> \<not> a_using_real_data res
        \<and> a_tool_calls res = length (paired_of events)
        \<and> a_time_by_category res = time_by_category (paired_of events)
        \<and> a_total_cost res =
            (\<Sum>i<length (paired_of events).
               spec_marginal_cost (p_in / 1000000) (p_out / 1000000)
                 (length (paired_of events)) i (sort_key p_ts (paired_of events) ! i))
        \<and> map cp_tokens (a_context_timeline res) =
            spec_running_counter cap 0
              (map (\<lambda>e. p_input_tokens e + p_response_tokens e)
                 (sort_key p_ts (paired_of events)))
        \<and> map cp_ts (a_context_timeline res) =
            map (\<lambda>e. Inr (p_ts e)) (sort_key p_ts (paired_of events))
        \<and> a_peak_tokens res =
            (if paired_of events = [] then 0
             else Max (set (map cp_tokens (a_context_timeline res))))"
proof -
  have same: "analyse events pm pa cap jsonl = analyse events pm pa cap None"
    using js analyse_no_usage by auto
  obtain tline where d: "degraded (fst (price_for (events_model events) pm pa)) cap (paired_of events) =
       Inr (\<Sum>i<length (paired_of events).
               spec_marginal_cost (p_in / 1000000) (p_out / 1000000)
                 (length (paired_of events)) i (sort_key p_ts (paired_of events) ! i), tline)"
    and tok: "map cp_tokens tline = spec_running_counter cap 0
          (map (\<lambda>e. p_input_tokens e + p_response_tokens e) (sort_key p_ts (paired_of events)))"
    and ts: "map cp_ts tline = map (\<lambda>e. Inr (p_ts e)) (sort_key p_ts (paired_of events))"
    using degraded_value [OF pin pout, of cap "paired_of events"] by blast
  from tok have len: "length tline = length (paired_of events)"
    by (metis length_map length_sort length_spec_running_counter)
  obtain res where res: "analyse events pm pa cap None = Inr (Some res)"
     "\<not> a_using_real_data res" "a_total_cost res = (\<Sum>i<length (paired_of events).
               spec_marginal_cost (p_in / 1000000) (p_out / 1000000)
                 (length (paired_of events)) i (sort_key p_ts (paired_of events) ! i))"
     "a_context_timeline res = tline"
     "a_peak_tokens res = max_default0 (map cp_tokens tline)"
     "a_tool_calls res = length (paired_of events)"
     "a_time_by_category res = time_by_category (paired_of events)"
    using analyse_degraded [OF ev d] by blast
  have "a_peak_tokens res =
            (if paired_of events = [] then 0
             else Max (set (map cp_tokens (a_context_timeline res))))"
    using res(4,5) len by (auto simp: max_default0_Max)
  with res same tok ts show ?thesis by auto
qed

lemma category_for_Read: "category_for ''Read'' = ''Reading files''"
  by (simp add: category_for_def TOOL_CATEGORIES_def)

lemma scenario_paired:
  assumes "ev_type pre = ''pre''" "ev_ts pre = 0" "ev_tool pre = ''Read''"
    "ev_input_tokens pre = Some 100"
    "ev_type post = ''post''" "ev_ts post = 2" "ev_tool post = ''Read''"
    "ev_response_tokens post = Some 50"
  shows "paired_of [pre, post] = [make_paired pre (Some post)]"
    and "p_elapsed_s (make_paired pre (Some post)) = 2"
    and "p_category (make_paired pre (Some post)) = ''Reading files''"
    and "p_response_tokens (make_paired pre (Some post)) = 50"
    and "p_input_tokens (make_paired pre (Some post)) = 100"
  using assms
  by (simp_all add: paired_of_def matching_def pre_events_def post_events_def post_by_tool_def
      find_match_def Let_def make_paired_def category_for_Read)

subsection \<open>Cost, timeline and peak\<close>

text \<open>
  C4. Without a usage summary the analysis runs in degraded mode. The pairs are
  processed in the order of their timestamps (a stable sort: the result is sorted, a
  permutation of the pairs, and pairs of equal timestamp keep their order). The total
  cost is the sum of the marginal costs, where invocation \<open>i\<close> (from 0) of \<open>T\<close> costs its
  response size times the input rate times \<open>T - i\<close>, plus its response size times the
  output rate, the rates being the card's rates per token (per million, divided by
  1,000,000). The timeline holds the running counter, which adds input and response
  size of each invocation and is capped at the context cap, and the peak is the maximum
  of the timeline. In the scenario of one \<^verbatim>\<open>Read\<close> pair (\<^verbatim>\<open>pre\<close> at time 0 with input
  estimate 100, \<^verbatim>\<open>post\<close> at time 2 with output estimate 50) and no transcript, there is
  one invocation, of elapsed time 2 and category "Reading files", and its cost is
  computed with 1 turn remaining.
\<close>

theorem degraded_mode_cost:
  "(events \<noteq> [] \<and> (jsonl = None \<or> (\<exists>t. jsonl = Some t \<and> parse_real_usage t = None))
     \<and> rc_input (fst (price_for (events_model events) pm pa)) = Some p_in
     \<and> rc_output (fst (price_for (events_model events) pm pa)) = Some p_out
    \<longrightarrow> (\<exists>res. analyse events pm pa cap jsonl = Inr (Some res)
        \<and> \<not> a_using_real_data res
        \<and> a_tool_calls res = length (paired_of events)
        \<and> a_time_by_category res = time_by_category (paired_of events)
        \<and> a_total_cost res =
            (\<Sum>i<length (paired_of events).
               spec_marginal_cost (p_in / 1000000) (p_out / 1000000)
                 (length (paired_of events)) i (sort_key p_ts (paired_of events) ! i))
        \<and> map cp_tokens (a_context_timeline res) =
            spec_running_counter cap 0
              (map (\<lambda>e. p_input_tokens e + p_response_tokens e)
                 (sort_key p_ts (paired_of events)))
        \<and> map cp_ts (a_context_timeline res) =
            map (\<lambda>e. Inr (p_ts e)) (sort_key p_ts (paired_of events))
        \<and> a_peak_tokens res =
            (if paired_of events = [] then 0
             else Max (set (map cp_tokens (a_context_timeline res))))))
   \<and> sorted (map p_ts (sort_key p_ts ps)) \<and> mset (sort_key p_ts ps) = mset ps
   \<and> (\<forall>k. filter (\<lambda>e. p_ts e = k) (sort_key p_ts ps) = filter (\<lambda>e. p_ts e = k) ps)
   \<and> (ev_type pre = ''pre'' \<and> ev_ts pre = 0 \<and> ev_tool pre = ''Read''
       \<and> ev_input_tokens pre = Some 100
       \<and> ev_type post = ''post'' \<and> ev_ts post = 2 \<and> ev_tool post = ''Read''
       \<and> ev_response_tokens post = Some 50
       \<and> rc_input (fst (price_for (events_model [pre, post]) pm pa)) = Some p_in
       \<and> rc_output (fst (price_for (events_model [pre, post]) pm pa)) = Some p_out
      \<longrightarrow> (\<exists>res. analyse [pre, post] pm pa cap None = Inr (Some res)
          \<and> \<not> a_using_real_data res
          \<and> a_tool_calls res = 1
          \<and> map p_elapsed_s (paired_of [pre, post]) = [2]
          \<and> map p_category (paired_of [pre, post]) = [''Reading files'']
          \<and> a_time_by_category res ''Reading files'' = 2
          \<and> a_total_cost res = 50 * (p_in / 1000000) * 1 + 50 * (p_out / 1000000)
          \<and> a_peak_tokens res = min 150 cap))"
proof -
  have a: "events \<noteq> [] \<and> (jsonl = None \<or> (\<exists>t. jsonl = Some t \<and> parse_real_usage t = None))
     \<and> rc_input (fst (price_for (events_model events) pm pa)) = Some p_in
     \<and> rc_output (fst (price_for (events_model events) pm pa)) = Some p_out
    \<longrightarrow> (\<exists>res. analyse events pm pa cap jsonl = Inr (Some res)
        \<and> \<not> a_using_real_data res
        \<and> a_tool_calls res = length (paired_of events)
        \<and> a_time_by_category res = time_by_category (paired_of events)
        \<and> a_total_cost res =
            (\<Sum>i<length (paired_of events).
               spec_marginal_cost (p_in / 1000000) (p_out / 1000000)
                 (length (paired_of events)) i (sort_key p_ts (paired_of events) ! i))
        \<and> map cp_tokens (a_context_timeline res) =
            spec_running_counter cap 0
              (map (\<lambda>e. p_input_tokens e + p_response_tokens e)
                 (sort_key p_ts (paired_of events)))
        \<and> map cp_ts (a_context_timeline res) =
            map (\<lambda>e. Inr (p_ts e)) (sort_key p_ts (paired_of events))
        \<and> a_peak_tokens res =
            (if paired_of events = [] then 0
             else Max (set (map cp_tokens (a_context_timeline res)))))"
    using degraded_analysis [of events jsonl pm pa p_in p_out cap] by blast
  have b: "sorted (map p_ts (sort_key p_ts ps)) \<and> mset (sort_key p_ts ps) = mset ps
   \<and> (\<forall>k. filter (\<lambda>e. p_ts e = k) (sort_key p_ts ps) = filter (\<lambda>e. p_ts e = k) ps)"
    by (simp add: sort_key_stable)
  have c: "ev_type pre = ''pre'' \<and> ev_ts pre = 0 \<and> ev_tool pre = ''Read''
       \<and> ev_input_tokens pre = Some 100
       \<and> ev_type post = ''post'' \<and> ev_ts post = 2 \<and> ev_tool post = ''Read''
       \<and> ev_response_tokens post = Some 50
       \<and> rc_input (fst (price_for (events_model [pre, post]) pm pa)) = Some p_in
       \<and> rc_output (fst (price_for (events_model [pre, post]) pm pa)) = Some p_out
      \<longrightarrow> (\<exists>res. analyse [pre, post] pm pa cap None = Inr (Some res)
          \<and> \<not> a_using_real_data res
          \<and> a_tool_calls res = 1
          \<and> map p_elapsed_s (paired_of [pre, post]) = [2]
          \<and> map p_category (paired_of [pre, post]) = [''Reading files'']
          \<and> a_time_by_category res ''Reading files'' = 2
          \<and> a_total_cost res = 50 * (p_in / 1000000) * 1 + 50 * (p_out / 1000000)
          \<and> a_peak_tokens res = min 150 cap)"
  proof (intro impI, elim conjE)
    assume h: "ev_type pre = ''pre''" "ev_ts pre = 0" "ev_tool pre = ''Read''"
      "ev_input_tokens pre = Some 100"
      "ev_type post = ''post''" "ev_ts post = 2" "ev_tool post = ''Read''"
      "ev_response_tokens post = Some 50"
    and pin: "rc_input (fst (price_for (events_model [pre, post]) pm pa)) = Some p_in"
    and pout: "rc_output (fst (price_for (events_model [pre, post]) pm pa)) = Some p_out"
    note sp = scenario_paired [OF h]
    obtain res where res: "analyse [pre, post] pm pa cap None = Inr (Some res)"
        "\<not> a_using_real_data res"
        "a_tool_calls res = length (paired_of [pre, post])"
        "a_time_by_category res = time_by_category (paired_of [pre, post])"
        "a_total_cost res =
            (\<Sum>i<length (paired_of [pre, post]).
               spec_marginal_cost (p_in / 1000000) (p_out / 1000000)
                 (length (paired_of [pre, post])) i (sort_key p_ts (paired_of [pre, post]) ! i))"
        "map cp_tokens (a_context_timeline res) =
            spec_running_counter cap 0
              (map (\<lambda>e. p_input_tokens e + p_response_tokens e)
                 (sort_key p_ts (paired_of [pre, post])))"
        "a_peak_tokens res =
            (if paired_of [pre, post] = [] then 0
             else Max (set (map cp_tokens (a_context_timeline res))))"
      using degraded_analysis [of "[pre, post]" None pm pa p_in p_out cap] pin pout by auto
    have 1: "a_tool_calls res = 1" using res(3) sp(1) by simp
    have 2: "a_time_by_category res ''Reading files'' = 2"
      using res(4) sp(1,2,3) by (simp add: time_by_category_def)
    have 3: "a_total_cost res = 50 * (p_in / 1000000) * 1 + 50 * (p_out / 1000000)"
      using res(5) sp(1,4) by (simp add: spec_marginal_cost_def)
    have 4: "a_peak_tokens res = min 150 cap"
      using res(6,7) sp(1,4,5) by simp
    from res(1,2) 1 2 3 4 sp(1,2,3)
    show "\<exists>res. analyse [pre, post] pm pa cap None = Inr (Some res)
          \<and> \<not> a_using_real_data res
          \<and> a_tool_calls res = 1
          \<and> map p_elapsed_s (paired_of [pre, post]) = [2]
          \<and> map p_category (paired_of [pre, post]) = [''Reading files'']
          \<and> a_time_by_category res ''Reading files'' = 2
          \<and> a_total_cost res = 50 * (p_in / 1000000) * 1 + 50 * (p_out / 1000000)
          \<and> a_peak_tokens res = min 150 cap"
      by simp
  qed
  from a b c show ?thesis by blast
qed

theorem degraded_mode_cost_witness:
  "(\<exists>res. analyse [ex_pre\<lparr>ev_ts := 3\<rparr>, ex_pre, ex_post] ex_models ex_aliases 200 None
             = Inr (Some res)
       \<and> \<not> a_using_real_data res
       \<and> a_total_cost res = (50 * 3 * 2 + 50 * 15) / 1000000
       \<and> map cp_tokens (a_context_timeline res) = [150, 200]
       \<and> map cp_ts (a_context_timeline res) = [Inr 0, Inr 3]
       \<and> a_peak_tokens res = 200)
   \<and> (\<exists>res. analyse [ex_pre, ex_post] ex_models ex_aliases CONTEXT_CAP None = Inr (Some res)
       \<and> \<not> a_using_real_data res \<and> a_tool_calls res = 1
       \<and> a_time_by_category res ''Reading files'' = 2
       \<and> a_total_cost res = 50 * (3 / 1000000) * 1 + 50 * (15 / 1000000)
       \<and> a_peak_tokens res = 150)"
proof -
  let ?late = "ex_pre\<lparr>ev_ts := 3\<rparr>"
  let ?evs = "[?late, ex_pre, ex_post]"
  let ?p0 = "\<lparr>p_tool = ''Read'', p_category = ''Reading files'', p_elapsed_s = 2,
      p_input_tokens = 100, p_response_tokens = 50, p_file_path = Some ''a.py'',
      p_command = None, p_ts = 0\<rparr>"
  let ?p1 = "\<lparr>p_tool = ''Read'', p_category = ''Reading files'', p_elapsed_s = 0,
      p_input_tokens = 100, p_response_tokens = 0, p_file_path = Some ''a.py'',
      p_command = None, p_ts = 3\<rparr>"
  have model: "events_model ?evs = ''claude-sonnet-4-6''"
    by (simp add: events_model_def ex_pre_def ex_post_def get_str_def)
  have ps: "paired_of ?evs = [?p1, ?p0]"
    by (simp add: paired_of_def matching_def pre_events_def post_events_def post_by_tool_def
        find_match_def Let_def make_paired_def category_for_Read py_or_def ex_pre_def ex_post_def)
  have srt: "sort_key p_ts [?p1, ?p0] = [?p0, ?p1]"
    by simp
  have h1: "?evs \<noteq> [] \<and> (None = None \<or> (\<exists>t. None = Some t \<and> parse_real_usage t = None))
     \<and> rc_input (fst (price_for (events_model ?evs) ex_models ex_aliases)) = Some 3
     \<and> rc_output (fst (price_for (events_model ?evs) ex_models ex_aliases)) = Some 15"
    by (simp add: model price_default_fallback FALLBACK_PRICING_def)
  obtain res where r: "analyse ?evs ex_models ex_aliases 200 None = Inr (Some res)"
      "\<not> a_using_real_data res"
      "a_total_cost res =
         (\<Sum>i<length (paired_of ?evs).
            spec_marginal_cost (3 / 1000000) (15 / 1000000)
              (length (paired_of ?evs)) i (sort_key p_ts (paired_of ?evs) ! i))"
      "map cp_tokens (a_context_timeline res) =
         spec_running_counter 200 0
           (map (\<lambda>e. p_input_tokens e + p_response_tokens e) (sort_key p_ts (paired_of ?evs)))"
      "map cp_ts (a_context_timeline res) =
         map (\<lambda>e. Inr (p_ts e)) (sort_key p_ts (paired_of ?evs))"
      "a_peak_tokens res =
         (if paired_of ?evs = [] then 0 else Max (set (map cp_tokens (a_context_timeline res))))"
    using degraded_mode_cost [of ?evs None ex_models ex_aliases 3 15 200] h1 by blast
  have cost: "a_total_cost res = (50 * 3 * 2 + 50 * 15) / 1000000"
    unfolding r(3) ps srt by (simp add: spec_marginal_cost_def lessThan_Suc numeral_2_eq_2)
  have toks: "map cp_tokens (a_context_timeline res) = [150, 200]"
    unfolding r(4) ps srt by simp
  have tss: "map cp_ts (a_context_timeline res) = [Inr 0, Inr 3]"
    unfolding r(5) ps srt by simp
  have peak: "a_peak_tokens res = 200"
    unfolding r(6) toks ps by simp
  have 1: "\<exists>res. analyse ?evs ex_models ex_aliases 200 None = Inr (Some res)
       \<and> \<not> a_using_real_data res
       \<and> a_total_cost res = (50 * 3 * 2 + 50 * 15) / 1000000
       \<and> map cp_tokens (a_context_timeline res) = [150, 200]
       \<and> map cp_ts (a_context_timeline res) = [Inr 0, Inr 3]
       \<and> a_peak_tokens res = 200"
    using r(1,2) cost toks tss peak by auto
  have h2: "ev_type ex_pre = ''pre'' \<and> ev_ts ex_pre = 0 \<and> ev_tool ex_pre = ''Read''
       \<and> ev_input_tokens ex_pre = Some 100
       \<and> ev_type ex_post = ''post'' \<and> ev_ts ex_post = 2 \<and> ev_tool ex_post = ''Read''
       \<and> ev_response_tokens ex_post = Some 50
       \<and> rc_input (fst (price_for (events_model [ex_pre, ex_post]) ex_models ex_aliases)) = Some 3
       \<and> rc_output (fst (price_for (events_model [ex_pre, ex_post]) ex_models ex_aliases)) = Some 15"
  proof -
    have fields: "ev_type ex_pre = ''pre'' \<and> ev_ts ex_pre = 0 \<and> ev_tool ex_pre = ''Read''
       \<and> ev_input_tokens ex_pre = Some 100
       \<and> ev_type ex_post = ''post'' \<and> ev_ts ex_post = 2 \<and> ev_tool ex_post = ''Read''
       \<and> ev_response_tokens ex_post = Some 50"
      by (simp add: ex_pre_def ex_post_def)
    have rates: "rc_input (fst (price_for (events_model [ex_pre, ex_post]) ex_models ex_aliases)) = Some 3
       \<and> rc_output (fst (price_for (events_model [ex_pre, ex_post]) ex_models ex_aliases)) = Some 15"
      by (simp add: ex_events_model price_default_fallback FALLBACK_PRICING_def)
    from fields rates show ?thesis by blast
  qed
  have "\<exists>res. analyse [ex_pre, ex_post] ex_models ex_aliases CONTEXT_CAP None = Inr (Some res)
       \<and> \<not> a_using_real_data res \<and> a_tool_calls res = 1
       \<and> map p_elapsed_s (paired_of [ex_pre, ex_post]) = [2]
       \<and> map p_category (paired_of [ex_pre, ex_post]) = [''Reading files'']
       \<and> a_time_by_category res ''Reading files'' = 2
       \<and> a_total_cost res = 50 * (3 / 1000000) * 1 + 50 * (15 / 1000000)
       \<and> a_peak_tokens res = min 150 CONTEXT_CAP"
    using degraded_mode_cost [of _ _ ex_models ex_aliases 3 15 CONTEXT_CAP _ ex_pre ex_post] h2
    by blast
  then have 2: "\<exists>res. analyse [ex_pre, ex_post] ex_models ex_aliases CONTEXT_CAP None = Inr (Some res)
       \<and> \<not> a_using_real_data res \<and> a_tool_calls res = 1
       \<and> a_time_by_category res ''Reading files'' = 2
       \<and> a_total_cost res = 50 * (3 / 1000000) * 1 + 50 * (15 / 1000000)
       \<and> a_peak_tokens res = 150"
    by (auto simp: CONTEXT_CAP_def)
  from 1 2 show ?thesis by blast
qed

section \<open>Non-negativity and monotonicity of the cost\<close>

subsection \<open>Cards, and the cost of authoritative mode\<close>

lemma price_for_in_table:
  "fst (price_for model pm pa) = FALLBACK_PRICING \<or> fst (price_for model pm pa) \<in> ran pm"
proof -
  have loop: "prefix_loop pm parts n = Some c \<Longrightarrow> c \<in> ran pm" for parts n c
  proof (induction pm parts n rule: prefix_loop.induct)
    case (1 md parts n)
    then show ?case
      by (subst (asm) (2) prefix_loop.simps) (auto simp: ran_def split: if_splits option.splits)
  qed
  show ?thesis
    by (auto simp: price_for_def alias_lookup_def Let_def ran_def dest!: loop
        split: option.splits if_splits)
qed

lemma price_for_nonneg:
  "\<forall>c\<in>ran pm. card_nonneg c \<Longrightarrow> card_nonneg (fst (price_for model pm pa))"
  using price_for_in_table [of model pm pa]
  by (auto simp: card_nonneg_def rate_nonneg_def FALLBACK_PRICING_def)

lemma authoritative_cost_nonneg:
  assumes "card_nonneg pricing" "0 \<le> i" "0 \<le> out" "0 \<le> c" "0 \<le> r"
    and "authoritative_cost pricing i out c r = Inr cost"
  shows "0 \<le> cost"
proof -
  from assms(6) obtain p_in p_out where p: "rc_input pricing = Some p_in" "rc_output pricing = Some p_out"
    by (auto simp: authoritative_cost_def split: option.splits)
  define cc where "cc = (case rc_cache_creation pricing of Some r \<Rightarrow> r | None \<Rightarrow> p_in * (125 / 100))"
  define cr where "cr = (case rc_cache_read pricing of Some r \<Rightarrow> r | None \<Rightarrow> p_in * (1 / 10))"
  have nn: "0 \<le> p_in" "0 \<le> p_out" "0 \<le> cc" "0 \<le> cr"
    using assms(1) p
    by (auto simp: card_nonneg_def rate_nonneg_def cc_def cr_def split: option.splits)
  have c1: "cost = (real_of_int i * p_in + real_of_int out * p_out + real_of_int c * cc
       + real_of_int r * cr) / 1000000"
    using assms(6) p by (simp add: authoritative_cost_def cc_def cr_def)
  have "0 \<le> real_of_int i * p_in" "0 \<le> real_of_int out * p_out"
    "0 \<le> real_of_int c * cc" "0 \<le> real_of_int r * cr"
    using assms(2-5) nn by simp_all
  then show ?thesis unfolding c1 by simp
qed

lemma authoritative_cost_mono:
  assumes "card_nonneg pricing" "i \<le> i'" "out \<le> out'" "c \<le> c'" "r \<le> r'"
    and "authoritative_cost pricing i out c r = Inr cost"
    and "authoritative_cost pricing i' out' c' r' = Inr cost'"
  shows "cost \<le> cost'"
proof -
  from assms(6) obtain p_in p_out where p: "rc_input pricing = Some p_in" "rc_output pricing = Some p_out"
    by (auto simp: authoritative_cost_def split: option.splits)
  define cc where "cc = (case rc_cache_creation pricing of Some r \<Rightarrow> r | None \<Rightarrow> p_in * (125 / 100))"
  define cr where "cr = (case rc_cache_read pricing of Some r \<Rightarrow> r | None \<Rightarrow> p_in * (1 / 10))"
  have nn: "0 \<le> p_in" "0 \<le> p_out" "0 \<le> cc" "0 \<le> cr"
    using assms(1) p
    by (auto simp: card_nonneg_def rate_nonneg_def cc_def cr_def split: option.splits)
  have c1: "cost = (real_of_int i * p_in + real_of_int out * p_out + real_of_int c * cc
       + real_of_int r * cr) / 1000000"
    using assms(6) p by (simp add: authoritative_cost_def cc_def cr_def)
  have c2: "cost' = (real_of_int i' * p_in + real_of_int out' * p_out + real_of_int c' * cc
       + real_of_int r' * cr) / 1000000"
    using assms(7) p by (simp add: authoritative_cost_def cc_def cr_def)
  have "real_of_int i * p_in \<le> real_of_int i' * p_in" using assms(2) nn(1) by (simp add: mult_right_mono)
  moreover have "real_of_int out * p_out \<le> real_of_int out' * p_out" using assms(3) nn(2) by (simp add: mult_right_mono)
  moreover have "real_of_int c * cc \<le> real_of_int c' * cc" using assms(4) nn(3) by (simp add: mult_right_mono)
  moreover have "real_of_int r * cr \<le> real_of_int r' * cr" using assms(5) nn(4) by (simp add: mult_right_mono)
  ultimately show ?thesis unfolding c1 c2 by (simp add: divide_right_mono)
qed

subsection \<open>Transcripts that differ in their token counts\<close>

lemma usage_record_le:
  "line_le l l' \<Longrightarrow> rel_option record_le (usage_record l) (usage_record l')"
proof (induction l l' rule: line_le.induct)
  case (1 d d')
  then have e: "entry_le d d'" by simp
  show ?case
  proof (cases "t_message d")
    case None
    with e show ?thesis by (auto simp: entry_le_def)
  next
    case (Some m)
    with e obtain m' where m': "t_message d' = Some m'" "message_le m m'"
      by (auto simp: entry_le_def option_rel_Some1)
    show ?thesis
    proof (cases "m_usage m")
      case None
      with m' Some e show ?thesis by (auto simp: entry_le_def message_le_def)
    next
      case (Some u)
      with m' obtain u' where u': "m_usage m' = Some u'" "usage_le u u'"
        by (auto simp: message_le_def option_rel_Some1)
      show ?thesis
        using e \<open>t_message d = Some m\<close> m' Some u'
        by (auto simp: entry_le_def message_le_def usage_le_def record_le_def call_le_def
            make_call_def Let_def)
    qed
  qed
qed simp_all

lemma usage_records_le:
  "list_all2 line_le ls ls' \<Longrightarrow> list_all2 record_le (usage_records ls) (usage_records ls')"
proof (induction rule: list_all2_induct)
  case Nil
  then show ?case by simp
next
  case (Cons l ls l' ls')
  from usage_record_le [OF Cons(1)] Cons(3) show ?case
    by (cases "usage_record l"; cases "usage_record l'") auto
qed

lemma NotObject_le: "list_all2 line_le ls ls' \<Longrightarrow> NotObject \<in> set ls \<longleftrightarrow> NotObject \<in> set ls'"
proof (induction rule: list_all2_induct)
  case Nil
  then show ?case by simp
next
  case (Cons l ls l' ls')
  have "l = NotObject \<longleftrightarrow> l' = NotObject"
    using Cons(1) by (cases l; cases l') auto
  with Cons show ?case by auto
qed

lemma keep_new_le:
  "list_all2 R rs rs' \<Longrightarrow> (\<And>r r'. R r r' \<Longrightarrow> key r = key r') \<Longrightarrow>
   list_all2 R (keep_new key seen rs) (keep_new key seen rs')"
proof (induction arbitrary: seen rule: list_all2_induct)
  case Nil
  then show ?case by simp
next
  case (Cons r rs r' rs')
  have "key r = key r'" using Cons by blast
  then show ?case using Cons by auto
qed

lemma sum_list_le:
  "list_all2 R cs cs' \<Longrightarrow> (\<And>c c'. R c c' \<Longrightarrow> f c \<le> (f c' :: int)) \<Longrightarrow>
   sum_list (map f cs) \<le> sum_list (map f cs')"
  by (induction rule: list_all2_induct) (auto intro: add_mono)

lemma map_eq_le:
  "list_all2 R cs cs' \<Longrightarrow> (\<And>c c'. R c c' \<Longrightarrow> f c = f c') \<Longrightarrow> map f cs = map f cs'"
  by (induction rule: list_all2_induct) auto

lemma parse_real_usage_le:
  assumes "list_all2 line_le ls ls'"
  shows "rel_option (\<lambda>ru ru'. us_model ru = us_model ru'
           \<and> us_input_tokens ru \<le> us_input_tokens ru'
           \<and> us_output_tokens ru \<le> us_output_tokens ru'
           \<and> us_cache_creation_tokens ru \<le> us_cache_creation_tokens ru'
           \<and> us_cache_read_tokens ru \<le> us_cache_read_tokens ru')
         (parse_real_usage (Lines ls)) (parse_real_usage (Lines ls'))"
proof -
  define cs where "cs = map call_of (keep_new req_of {} (usage_records ls))"
  define cs' where "cs' = map call_of (keep_new req_of {} (usage_records ls'))"
  have k: "list_all2 record_le (keep_new req_of {} (usage_records ls))
      (keep_new req_of {} (usage_records ls'))"
    using usage_records_le [OF assms] by (rule keep_new_le) (simp add: record_le_def)
  then have c: "list_all2 call_le cs cs'"
    unfolding cs_def cs'_def
    by (auto simp: list_all2_map1 list_all2_map2 record_le_def elim: list_all2_mono)
  have len: "cs = [] \<longleftrightarrow> cs' = []" using c by (auto dest: list_all2_lengthD)
  have mdl: "map ac_model cs = map ac_model cs'"
    using c by (rule map_eq_le) (simp add: call_le_def)
  have s1: "sum_list (map ac_input cs) \<le> sum_list (map ac_input cs')"
    using c by (rule sum_list_le) (simp add: call_le_def)
  have s2: "sum_list (map ac_output cs) \<le> sum_list (map ac_output cs')"
    using c by (rule sum_list_le) (simp add: call_le_def)
  have s3: "sum_list (map ac_cache_create cs) \<le> sum_list (map ac_cache_create cs')"
    using c by (rule sum_list_le) (simp add: call_le_def)
  have s4: "sum_list (map ac_cache_read cs) \<le> sum_list (map ac_cache_read cs')"
    using c by (rule sum_list_le) (simp add: call_le_def)
  have p: "parse_real_usage (Lines ls) =
      (if NotObject \<in> set ls \<or> cs = [] then None else Some (summarise cs))"
    "parse_real_usage (Lines ls') =
      (if NotObject \<in> set ls' \<or> cs' = [] then None else Some (summarise cs'))"
    by (simp_all add: parse_real_usage_def scan_keep_new cs_def cs'_def)
  show ?thesis
    unfolding p using NotObject_le [OF assms] len mdl s1 s2 s3 s4
    by (simp add: summarise_def last_model_def)
qed

subsection \<open>Non-negative token counts\<close>

lemma keep_new_set: "set (keep_new key seen rs) \<subseteq> set rs"
  by (induction rs arbitrary: seen) auto

lemma sum_list_map_nonneg:
  "(\<And>x. x \<in> set xs \<Longrightarrow> 0 \<le> (f x :: int)) \<Longrightarrow> 0 \<le> sum_list (map f xs)"
  by (induction xs) auto

lemma parse_real_usage_nonneg:
  assumes "transcript_nonneg (Some (Lines ls))" "parse_real_usage (Lines ls) = Some ru"
  shows "0 \<le> us_input_tokens ru \<and> 0 \<le> us_output_tokens ru
     \<and> 0 \<le> us_cache_creation_tokens ru \<and> 0 \<le> us_cache_read_tokens ru"
proof -
  let ?k = "keep_new req_of {} (usage_records ls)"
  have nn: "usage_nonneg (snd (snd r))" if "r \<in> set ?k" for r
    using that assms(1) keep_new_set [of req_of "{}" "usage_records ls"]
    by (auto simp: transcript_nonneg_def list_all_iff)
  have ru: "ru = summarise (map call_of ?k)"
    using assms(2) by (auto simp: parse_real_usage_def scan_keep_new split: if_splits)
  have "0 \<le> sum_list (map (\<lambda>r. get0 (u_input_tokens (snd (snd r)))) ?k)"
    "0 \<le> sum_list (map (\<lambda>r. get0 (u_output_tokens (snd (snd r)))) ?k)"
    "0 \<le> sum_list (map (\<lambda>r. get0 (u_cache_creation_input_tokens (snd (snd r)))) ?k)"
    "0 \<le> sum_list (map (\<lambda>r. get0 (u_cache_read_input_tokens (snd (snd r)))) ?k)"
    using nn by (auto intro!: sum_list_map_nonneg simp: usage_nonneg_def)
  then show ?thesis unfolding ru summarise_sums by simp
qed

subsection \<open>Logs that differ in their estimates\<close>

lemma filter_le:
  "list_all2 R xs ys \<Longrightarrow> (\<And>x y. R x y \<Longrightarrow> P x = P y) \<Longrightarrow>
   list_all2 R (filter P xs) (filter P ys)"
proof (induction rule: list_all2_induct)
  case Nil
  then show ?case by simp
next
  case (Cons x xs y ys)
  have "P x = P y" using Cons by blast
  then show ?case using Cons by auto
qed

lemma find_remove1_le:
  assumes "list_all2 R xs ys" and "\<And>x y. R x y \<Longrightarrow> P x = Q y"
  shows "(List.find P xs = None \<and> List.find Q ys = None)
     \<or> (\<exists>x y. List.find P xs = Some x \<and> List.find Q ys = Some y \<and> R x y
           \<and> list_all2 R (remove1 x xs) (remove1 y ys))"
  using assms
proof (induction rule: list_all2_induct)
  case Nil
  then show ?case by simp
next
  case (Cons x xs y ys)
  have pq: "P x = Q y" using Cons by blast
  show ?case
  proof (cases "P x")
    case True
    then show ?thesis using pq Cons by auto
  next
    case False
    with pq have nq: "\<not> Q y" by simp
    have "(List.find P xs = None \<and> List.find Q ys = None)
     \<or> (\<exists>x y. List.find P xs = Some x \<and> List.find Q ys = Some y \<and> R x y
           \<and> list_all2 R (remove1 x xs) (remove1 y ys))"
      using Cons by auto
    then consider "List.find P xs = None" "List.find Q ys = None"
      | a b where "List.find P xs = Some a" "List.find Q ys = Some b" "R a b"
          "list_all2 R (remove1 a xs) (remove1 b ys)"
      by auto
    then show ?thesis
    proof cases
      case 1
      then show ?thesis using False nq by simp
    next
      case 2
      have "P a" "Q b" using 2(1,2) by (auto simp: find_Some_iff)
      then have "a \<noteq> x" "b \<noteq> y" using False nq by auto
      then show ?thesis using 2 False nq Cons(1) by auto
    qed
  qed
qed

lemma match_le_simp [simp]:
  "match_le (a, m) (b, m') \<longleftrightarrow> event_le a b \<and> rel_option event_le m m'"
  by (simp add: match_le_def)

lemma pair_loop_le:
  "list_all2 event_le pres pres' \<Longrightarrow> (\<And>t. list_all2 event_le (pool t) (pool' t)) \<Longrightarrow>
   list_all2 match_le (pair_loop pres pool) (pair_loop pres' pool')"
proof (induction arbitrary: pool pool' rule: list_all2_induct)
  case Nil
  then show ?case by simp
next
  case (Cons a pres b pres')
  have tool: "ev_tool a = ev_tool b" and ts: "ev_ts a = ev_ts b"
    using Cons(1) by (simp_all add: event_le_def)
  let ?c = "pool (ev_tool a)" and ?c' = "pool' (ev_tool a)"
  have cands: "list_all2 event_le ?c ?c'" using Cons.prems by simp
  have "(find_match a ?c = None \<and> find_match b ?c' = None)
     \<or> (\<exists>x y. find_match a ?c = Some x \<and> find_match b ?c' = Some y \<and> event_le x y
           \<and> list_all2 event_le (remove1 x ?c) (remove1 y ?c'))"
    unfolding find_match_def
    by (rule find_remove1_le [OF cands]) (simp add: event_le_def ts)
  then consider "find_match a ?c = None" "find_match b ?c' = None"
    | x y where "find_match a ?c = Some x" "find_match b ?c' = Some y" "event_le x y"
        "list_all2 event_le (remove1 x ?c) (remove1 y ?c')"
    by auto
  then show ?case
  proof cases
    case 1
    have "list_all2 match_le (pair_loop pres pool) (pair_loop pres' pool')"
      using Cons.IH Cons.prems by blast
    then show ?thesis using 1 Cons(1) tool by (simp add: Let_def)
  next
    case 2
    let ?p = "pool(ev_tool a := remove1 x ?c)" and ?p' = "pool'(ev_tool a := remove1 y ?c')"
    have "list_all2 event_le (?p t) (?p' t)" for t
      using 2(4) Cons.prems by simp
    then have "list_all2 match_le (pair_loop pres ?p) (pair_loop pres' ?p')"
      using Cons.IH by blast
    then show ?thesis using 2 Cons(1) tool by (simp add: Let_def)
  qed
qed

lemma make_paired_le: "match_le a b \<Longrightarrow> paired_le (case a of (pre, m) \<Rightarrow> make_paired pre m)
    (case b of (pre, m) \<Rightarrow> make_paired pre m)"
proof -
  assume m: "match_le a b"
  obtain pre ma where a: "a = (pre, ma)" by (cases a)
  obtain pre' mb where b: "b = (pre', mb)" by (cases b)
  from m a b have e: "event_le pre pre'" and r: "rel_option event_le ma mb" by simp_all
  show ?thesis
  proof (cases ma)
    case None
    with r have "mb = None" by simp
    with None a b e show ?thesis by (simp add: paired_le_def make_paired_def event_le_def)
  next
    case (Some x)
    with r obtain y where y: "mb = Some y" "event_le x y" by (auto simp: option_rel_Some1)
    with Some a b e show ?thesis
      by (simp add: paired_le_def make_paired_def event_le_def get0_def)
  qed
qed

lemma paired_of_le:
  assumes "list_all2 event_le evs evs'"
  shows "list_all2 paired_le (paired_of evs) (paired_of evs')"
proof -
  have pre: "list_all2 event_le (pre_events evs) (pre_events evs')"
    unfolding pre_events_def using assms by (rule filter_le) (simp add: event_le_def)
  have post: "list_all2 event_le (post_events evs) (post_events evs')"
    unfolding post_events_def using assms by (rule filter_le) (simp add: event_le_def)
  have pool: "list_all2 event_le (post_by_tool (post_events evs) t) (post_by_tool (post_events evs') t)"
    for t
    unfolding post_by_tool_filter using post by (rule filter_le) (simp add: event_le_def)
  have "list_all2 match_le (matching evs) (matching evs')"
    unfolding matching_def using pre pool by (rule pair_loop_le)
  then show ?thesis
    unfolding paired_of_def
    by (auto simp: list_all2_map1 list_all2_map2 elim!: list_all2_mono dest: make_paired_le)
qed

lemma insort_key_le:
  "list_all2 R xs ys \<Longrightarrow> R x y \<Longrightarrow> (\<And>a b. R a b \<Longrightarrow> f a = f b) \<Longrightarrow>
   list_all2 R (insort_key f x xs) (insort_key f y ys)"
proof (induction rule: list_all2_induct)
  case Nil
  then show ?case by simp
next
  case (Cons a xs b ys)
  have "f a = f b" "f x = f y" using Cons by blast+
  then show ?case using Cons by auto
qed

lemma sort_key_le:
  "list_all2 R xs ys \<Longrightarrow> (\<And>a b. R a b \<Longrightarrow> f a = f b) \<Longrightarrow>
   list_all2 R (sort_key f xs) (sort_key f ys)"
  by (induction rule: list_all2_induct) (auto simp: sort_key_simps intro: insort_key_le)

lemma marginal_cost_sum_le:
  assumes "list_all2 paired_le s s'" "0 \<le> ip" "0 \<le> op"
  shows "(\<Sum>i<length s. spec_marginal_cost ip op (length s) i (s ! i))
       \<le> (\<Sum>i<length s'. spec_marginal_cost ip op (length s') i (s' ! i))"
proof -
  have len: "length s = length s'" using assms(1) by (rule list_all2_lengthD)
  have "spec_marginal_cost ip op (length s) i (s ! i)
      \<le> spec_marginal_cost ip op (length s') i (s' ! i)" if "i < length s" for i
  proof -
    have le: "real_of_int (p_response_tokens (s ! i)) \<le> real_of_int (p_response_tokens (s' ! i))"
      using list_all2_nthD [OF assms(1) that] by (simp add: paired_le_def)
    have "0 \<le> ip * real (length s - i)" using assms(2) by simp
    then have "real_of_int (p_response_tokens (s ! i)) * (ip * real (length s - i))
        \<le> real_of_int (p_response_tokens (s' ! i)) * (ip * real (length s - i))"
      using le by (rule mult_right_mono [rotated])
    moreover have "real_of_int (p_response_tokens (s ! i)) * op
        \<le> real_of_int (p_response_tokens (s' ! i)) * op"
      using le assms(3) by (rule mult_right_mono)
    ultimately show ?thesis by (simp add: spec_marginal_cost_def len mult.assoc)
  qed
  then show ?thesis unfolding len [symmetric] by (intro sum_mono) simp
qed

lemma marginal_cost_sum_nonneg:
  assumes "\<And>p. p \<in> set s \<Longrightarrow> 0 \<le> p_response_tokens p" "0 \<le> ip" "0 \<le> op"
  shows "0 \<le> (\<Sum>i<length s. spec_marginal_cost ip op (length s) i (s ! i))"
proof (rule sum_nonneg)
  fix i assume "i \<in> {..<length s}"
  then have "0 \<le> p_response_tokens (s ! i)" using assms(1) by simp
  then show "0 \<le> spec_marginal_cost ip op (length s) i (s ! i)"
    using assms(2,3) by (simp add: spec_marginal_cost_def)
qed

lemma paired_of_nonneg:
  assumes "events_nonneg events" "p \<in> set (paired_of events)"
  shows "0 \<le> p_response_tokens p"
proof -
  from assms(2) obtain pre m where pm: "(pre, m) \<in> set (matching events)" "p = make_paired pre m"
    by (auto simp: paired_of_def)
  show ?thesis
  proof (cases m)
    case None
    with pm show ?thesis by (simp add: make_paired_def)
  next
    case (Some post)
    with pm(1) have "post \<in> set (post_events events)" using matching_sound by blast
    then have "post \<in> set events" by (simp add: post_events_def)
    then have "0 \<le> get0 (ev_response_tokens post)"
      using assms(1) by (simp add: events_nonneg_def list_all_iff)
    with Some pm(2) show ?thesis by (simp add: make_paired_def get0_def)
  qed
qed

lemma events_model_le: "list_all2 event_le evs evs' \<Longrightarrow> events_model evs = events_model evs'"
proof -
  assume a: "list_all2 event_le evs evs'"
  have "rel_option (\<lambda>e e'. ev_model e = ev_model e')
      (List.find (\<lambda>e. get_str (ev_model e) \<noteq> []) evs)
      (List.find (\<lambda>e. get_str (ev_model e) \<noteq> []) evs')"
    using a by (induction rule: list_all2_induct) (auto simp: event_le_def)
  then show ?thesis
    unfolding events_model_def
    by (cases "List.find (\<lambda>e. get_str (ev_model e) \<noteq> []) evs";
        cases "List.find (\<lambda>e. get_str (ev_model e) \<noteq> []) evs'") auto
qed

subsection \<open>The analysis\<close>

lemma real_usage_le:
  assumes "transcript_le jsonl jsonl'"
  shows "rel_option (\<lambda>ru ru'. us_model ru = us_model ru'
           \<and> us_input_tokens ru \<le> us_input_tokens ru'
           \<and> us_output_tokens ru \<le> us_output_tokens ru'
           \<and> us_cache_creation_tokens ru \<le> us_cache_creation_tokens ru'
           \<and> us_cache_read_tokens ru \<le> us_cache_read_tokens ru')
         (case jsonl of None \<Rightarrow> None | Some t \<Rightarrow> parse_real_usage t)
         (case jsonl' of None \<Rightarrow> None | Some t \<Rightarrow> parse_real_usage t)"
  using assms
proof (induction jsonl jsonl' rule: transcript_le.induct)
  case 1
  then show ?case by simp
next
  case 2
  then show ?case by (simp add: parse_real_usage_def)
next
  case (3 ls ls')
  then show ?case using parse_real_usage_le [of ls ls'] by simp
qed simp_all

lemma analyse_degraded_error:
  assumes "events \<noteq> []"
    and "degraded (fst (price_for (events_model events) pm pa)) cap (paired_of events) = Inl e"
  shows "analyse events pm pa cap None = Inl e"
  using assms by (simp add: analyse_def Let_def)

lemma degraded_KeyError:
  "rc_input pricing = None \<or> rc_output pricing = None \<Longrightarrow> degraded pricing cap ps = Inl KeyError"
  by (auto simp: degraded_def split: option.splits)

lemma authoritative_cost_returns:
  "rc_input pricing \<noteq> None \<Longrightarrow> rc_output pricing \<noteq> None \<Longrightarrow>
   \<exists>cost. authoritative_cost pricing i out c r = Inr cost"
proof -
  assume "rc_input pricing \<noteq> None" "rc_output pricing \<noteq> None"
  then obtain p_in p_out where p: "rc_input pricing = Some p_in" "rc_output pricing = Some p_out"
    by auto
  show ?thesis
    unfolding authoritative_cost_def p option.case by (rule exI, rule refl)
qed

lemma analyse_degraded_le:
  assumes tab: "\<forall>c\<in>ran pm. card_nonneg c"
    and ev: "list_all2 event_le events events'"
  shows "result_le (analyse events pm pa cap None) (analyse events' pm pa cap None)"
proof (cases "events = []")
  case True
  then have "events' = []" using ev by simp
  with True show ?thesis by (simp add: analyse_def result_le_def)
next
  case False
  then have ne: "events \<noteq> []" "events' \<noteq> []" using ev by auto
  let ?card = "fst (price_for (events_model events) pm pa)"
  have card': "fst (price_for (events_model events') pm pa) = ?card"
    using events_model_le [OF ev] by simp
  have nn: "card_nonneg ?card" using tab by (rule price_for_nonneg)
  show ?thesis
  proof (cases "rc_input ?card = None \<or> rc_output ?card = None")
    case True
    then have "analyse events pm pa cap None = Inl KeyError"
      "analyse events' pm pa cap None = Inl KeyError"
      using analyse_degraded_error ne degraded_KeyError card' by metis+
    then show ?thesis by (simp add: result_le_def)
  next
    case False
    then obtain p_in p_out where p: "rc_input ?card = Some p_in" "rc_output ?card = Some p_out"
      by auto
    then have pos: "0 \<le> p_in / 1000000" "0 \<le> p_out / 1000000"
      using nn by (simp_all add: card_nonneg_def rate_nonneg_def)
    obtain res where res: "analyse events pm pa cap None = Inr (Some res)"
      "\<not> a_using_real_data res"
      "a_total_cost res =
            (\<Sum>i<length (paired_of events).
               spec_marginal_cost (p_in / 1000000) (p_out / 1000000)
                 (length (paired_of events)) i (sort_key p_ts (paired_of events) ! i))"
      using degraded_analysis [of events None pm pa p_in p_out cap] ne p by auto
    obtain res' where res': "analyse events' pm pa cap None = Inr (Some res')"
      "\<not> a_using_real_data res'"
      "a_total_cost res' =
            (\<Sum>i<length (paired_of events').
               spec_marginal_cost (p_in / 1000000) (p_out / 1000000)
                 (length (paired_of events')) i (sort_key p_ts (paired_of events') ! i))"
      using degraded_analysis [of events' None pm pa p_in p_out cap] ne p card' by auto
    have "list_all2 paired_le (sort_key p_ts (paired_of events)) (sort_key p_ts (paired_of events'))"
      using paired_of_le [OF ev] by (rule sort_key_le) (simp add: paired_le_def)
    from marginal_cost_sum_le [OF this pos]
    have "a_total_cost res \<le> a_total_cost res'"
      unfolding res(3) res'(3) by simp
    with res res' show ?thesis by (simp add: result_le_def)
  qed
qed

lemma analyse_authoritative_le:
  assumes tab: "\<forall>c\<in>ran pm. card_nonneg c"
    and ev: "events = [] \<longleftrightarrow> events' = []"
    and ru: "parse_real_usage t = Some ru" "parse_real_usage t' = Some ru'"
    and le: "us_model ru = us_model ru'"
      "us_input_tokens ru \<le> us_input_tokens ru'"
      "us_output_tokens ru \<le> us_output_tokens ru'"
      "us_cache_creation_tokens ru \<le> us_cache_creation_tokens ru'"
      "us_cache_read_tokens ru \<le> us_cache_read_tokens ru'"
  shows "result_le (analyse events pm pa cap (Some t)) (analyse events' pm pa cap (Some t'))"
proof (cases "events = []")
  case True
  with ev show ?thesis by (simp add: analyse_def result_le_def)
next
  case False
  then have ne: "events \<noteq> []" "events' \<noteq> []" using ev by auto
  let ?card = "fst (price_for (if us_model ru \<noteq> [] then us_model ru else ''claude-sonnet-4-6'') pm pa)"
  have card': "fst (price_for (if us_model ru' \<noteq> [] then us_model ru' else ''claude-sonnet-4-6'') pm pa)
      = ?card"
    using le(1) by simp
  have nn: "card_nonneg ?card" using tab by (rule price_for_nonneg)
  let ?c = "authoritative_cost ?card (us_input_tokens ru) (us_output_tokens ru)
           (us_cache_creation_tokens ru) (us_cache_read_tokens ru)"
  let ?c' = "authoritative_cost ?card (us_input_tokens ru') (us_output_tokens ru')
           (us_cache_creation_tokens ru') (us_cache_read_tokens ru')"
  show ?thesis
  proof (cases "rc_input ?card = None \<or> rc_output ?card = None")
    case True
    then have "?c = Inl KeyError" "?c' = Inl KeyError"
      by (simp_all add: authoritative_cost_KeyError)
    then have "analyse events pm pa cap (Some t) = Inl KeyError"
      "analyse events' pm pa cap (Some t') = Inl KeyError"
      using analyse_authoritative_error [OF ne(1) ru(1), of pm pa KeyError cap]
        analyse_authoritative_error [OF ne(2) ru(2), of pm pa KeyError cap] card'
      by simp_all
    then show ?thesis by (simp add: result_le_def)
  next
    case False
    then obtain cost cost' where c: "?c = Inr cost" "?c' = Inr cost'"
      using authoritative_cost_returns [of ?card] by metis
    have "cost \<le> cost'"
      using nn le(2-5) c by (rule authoritative_cost_mono)
    moreover obtain res where "analyse events pm pa cap (Some t) = Inr (Some res)"
      "a_using_real_data res" "a_total_cost res = cost"
      using analyse_authoritative [OF ne(1) ru(1) c(1), of cap] by blast
    moreover obtain res' where "analyse events' pm pa cap (Some t') = Inr (Some res')"
      "a_using_real_data res'" "a_total_cost res' = cost'"
      using analyse_authoritative [OF ne(2) ru(2), of pm pa cost' cap] c(2) card' by auto
    ultimately show ?thesis by (simp add: result_le_def)
  qed
qed

lemma analyse_le:
  assumes tab: "\<forall>c\<in>ran pm. card_nonneg c"
    and tr: "transcript_le jsonl jsonl'"
    and ev: "list_all2 event_le events events'"
  shows "result_le (analyse events pm pa cap jsonl) (analyse events' pm pa cap jsonl')"
proof -
  let ?ru = "case jsonl of None \<Rightarrow> None | Some t \<Rightarrow> parse_real_usage t"
  let ?ru' = "case jsonl' of None \<Rightarrow> None | Some t \<Rightarrow> parse_real_usage t"
  note rel = real_usage_le [OF tr]
  show ?thesis
  proof (cases ?ru)
    case None
    with rel have None': "?ru' = None" by simp
    have "analyse events pm pa cap jsonl = analyse events pm pa cap None"
      "analyse events' pm pa cap jsonl' = analyse events' pm pa cap None"
      using None None' analyse_no_usage by (auto split: option.splits)
    then show ?thesis using analyse_degraded_le [OF tab ev] by simp
  next
    case (Some ru)
    with rel obtain ru' where ru': "?ru' = Some ru'"
      and le: "us_model ru = us_model ru'"
      "us_input_tokens ru \<le> us_input_tokens ru'"
      "us_output_tokens ru \<le> us_output_tokens ru'"
      "us_cache_creation_tokens ru \<le> us_cache_creation_tokens ru'"
      "us_cache_read_tokens ru \<le> us_cache_read_tokens ru'"
      by (auto simp: option_rel_Some1)
    from Some obtain t where t: "jsonl = Some t" "parse_real_usage t = Some ru"
      by (auto split: option.splits)
    from ru' obtain t' where t': "jsonl' = Some t'" "parse_real_usage t' = Some ru'"
      by (auto split: option.splits)
    have "events = [] \<longleftrightarrow> events' = []" using ev by auto
    then show ?thesis
      unfolding t(1) t'(1) using t(2) t'(2) le
      by (rule analyse_authoritative_le [OF tab])
  qed
qed

lemma analyse_nonneg:
  assumes tab: "\<forall>c\<in>ran pm. card_nonneg c"
    and tr: "transcript_nonneg jsonl"
    and ev: "events_nonneg events"
    and res: "analyse events pm pa cap jsonl = Inr (Some res)"
  shows "0 \<le> a_total_cost res"
proof -
  have ne: "events \<noteq> []" using res by (auto simp: analyse_def)
  let ?ru = "case jsonl of None \<Rightarrow> None | Some t \<Rightarrow> parse_real_usage t"
  show ?thesis
  proof (cases ?ru)
    case None
    then have same: "analyse events pm pa cap None = Inr (Some res)"
      using res analyse_no_usage by (auto split: option.splits)
    let ?card = "fst (price_for (events_model events) pm pa)"
    have nn: "card_nonneg ?card" using tab by (rule price_for_nonneg)
    have "\<not> (rc_input ?card = None \<or> rc_output ?card = None)"
    proof
      assume "rc_input ?card = None \<or> rc_output ?card = None"
      then have "degraded ?card cap (paired_of events) = Inl KeyError"
        by (rule degraded_KeyError)
      then have "analyse events pm pa cap None = Inl KeyError"
        using ne by (intro analyse_degraded_error)
      with same show False by simp
    qed
    then obtain p_in p_out where p: "rc_input ?card = Some p_in" "rc_output ?card = Some p_out"
      by (cases "rc_input ?card"; cases "rc_output ?card") auto
    then have pos: "0 \<le> p_in / 1000000" "0 \<le> p_out / 1000000"
      using nn by (simp_all add: card_nonneg_def rate_nonneg_def)
    have "a_total_cost res =
            (\<Sum>i<length (paired_of events).
               spec_marginal_cost (p_in / 1000000) (p_out / 1000000)
                 (length (paired_of events)) i (sort_key p_ts (paired_of events) ! i))"
      using degraded_analysis [of events None pm pa p_in p_out cap] ne p same by auto
    moreover have "0 \<le> (\<Sum>i<length (sort_key p_ts (paired_of events)).
               spec_marginal_cost (p_in / 1000000) (p_out / 1000000)
                 (length (sort_key p_ts (paired_of events))) i (sort_key p_ts (paired_of events) ! i))"
      using paired_of_nonneg [OF ev] pos by (intro marginal_cost_sum_nonneg) simp_all
    ultimately show ?thesis by simp
  next
    case (Some ru)
    then obtain t where t: "jsonl = Some t" "parse_real_usage t = Some ru"
      by (auto split: option.splits)
    then obtain ls where ls: "t = Lines ls"
      by (cases t) (auto simp: parse_real_usage_def)
    have toks: "0 \<le> us_input_tokens ru \<and> 0 \<le> us_output_tokens ru
     \<and> 0 \<le> us_cache_creation_tokens ru \<and> 0 \<le> us_cache_read_tokens ru"
      using tr t ls by (intro parse_real_usage_nonneg) simp_all
    let ?card = "fst (price_for (if us_model ru \<noteq> [] then us_model ru else ''claude-sonnet-4-6'') pm pa)"
    have nn: "card_nonneg ?card" using tab by (rule price_for_nonneg)
    let ?c = "authoritative_cost ?card (us_input_tokens ru) (us_output_tokens ru)
           (us_cache_creation_tokens ru) (us_cache_read_tokens ru)"
    obtain cost where c: "?c = Inr cost"
      using res t analyse_authoritative_error [OF ne t(2), of pm pa _ cap]
      by (cases ?c) auto
    then have "a_total_cost res = cost"
      using analyse_authoritative [OF ne t(2) c, of cap] res t by auto
    moreover have "0 \<le> cost"
      using nn toks c by (intro authoritative_cost_nonneg [of ?card _ _ _ _ cost]) simp_all
    ultimately show ?thesis by simp
  qed
qed

text \<open>
  C8. Where every card of the rate-card table has non-negative rates, the token counts
  of the transcript are non-negative and the response estimates of the log are
  non-negative, the total cost of an analysis is non-negative. And the total cost is
  monotone in every token count: if a second transcript differs from the first only in
  having larger token counts, and a second log only in having larger estimates, then the
  analysis of the second returns a result whenever the analysis of the first does, in
  the same mode, and its total cost is at least as large. Increasing one token count
  (authoritative mode) or one estimated response size (degraded mode) is a special
  case.
\<close>

theorem cost_nonneg_monotone:
  "((\<forall>c\<in>ran pm. card_nonneg c) \<and> transcript_nonneg jsonl \<and> events_nonneg events
      \<and> analyse events pm pa cap jsonl = Inr (Some res)
     \<longrightarrow> 0 \<le> a_total_cost res)
   \<and> ((\<forall>c\<in>ran pm. card_nonneg c) \<and> transcript_le jsonl jsonl'
        \<and> list_all2 event_le events events'
        \<and> analyse events pm pa cap jsonl = Inr (Some res)
       \<longrightarrow> (\<exists>res'. analyse events' pm pa cap jsonl' = Inr (Some res')
              \<and> a_using_real_data res' = a_using_real_data res
              \<and> a_total_cost res \<le> a_total_cost res'))"
proof -
  have a: "(\<forall>c\<in>ran pm. card_nonneg c) \<and> transcript_nonneg jsonl \<and> events_nonneg events
      \<and> analyse events pm pa cap jsonl = Inr (Some res)
     \<longrightarrow> 0 \<le> a_total_cost res"
    using analyse_nonneg [of pm jsonl events pa cap res] by blast
  have b: "(\<forall>c\<in>ran pm. card_nonneg c) \<and> transcript_le jsonl jsonl'
        \<and> list_all2 event_le events events'
        \<and> analyse events pm pa cap jsonl = Inr (Some res)
       \<longrightarrow> (\<exists>res'. analyse events' pm pa cap jsonl' = Inr (Some res')
              \<and> a_using_real_data res' = a_using_real_data res
              \<and> a_total_cost res \<le> a_total_cost res')"
  proof (intro impI, elim conjE)
    assume h: "\<forall>c\<in>ran pm. card_nonneg c" "transcript_le jsonl jsonl'"
      "list_all2 event_le events events'"
      and res: "analyse events pm pa cap jsonl = Inr (Some res)"
    have "result_le (analyse events pm pa cap jsonl) (analyse events' pm pa cap jsonl')"
      using h by (rule analyse_le)
    then show "\<exists>res'. analyse events' pm pa cap jsonl' = Inr (Some res')
              \<and> a_using_real_data res' = a_using_real_data res
              \<and> a_total_cost res \<le> a_total_cost res'"
      unfolding res result_le_def
      by (cases "analyse events' pm pa cap jsonl'") (auto simp: option_rel_Some1)
  qed
  from a b show ?thesis by blast
qed

theorem cost_nonneg_monotone_witness:
  "(\<exists>res res'.
      analyse [ex_pre, ex_post] ex_models ex_aliases CONTEXT_CAP
        (Some (Lines [Object (ex_entry (Some ''r1'') 10)])) = Inr (Some res)
      \<and> analyse [ex_pre, ex_post] ex_models ex_aliases CONTEXT_CAP
          (Some (Lines [Object (ex_entry (Some ''r1'') 25)])) = Inr (Some res')
      \<and> a_using_real_data res \<and> a_using_real_data res'
      \<and> 0 \<le> a_total_cost res \<and> a_total_cost res \<le> a_total_cost res')
   \<and> (\<exists>res res'.
      analyse [ex_pre, ex_post] ex_models ex_aliases CONTEXT_CAP None = Inr (Some res)
      \<and> analyse [ex_pre, ex_post\<lparr>ev_response_tokens := Some 80\<rparr>] ex_models ex_aliases
          CONTEXT_CAP None = Inr (Some res')
      \<and> \<not> a_using_real_data res \<and> \<not> a_using_real_data res'
      \<and> 0 \<le> a_total_cost res \<and> a_total_cost res \<le> a_total_cost res')"
proof -
  let ?evs = "[ex_pre, ex_post]"
  let ?evs' = "[ex_pre, ex_post\<lparr>ev_response_tokens := Some 80\<rparr>]"
  let ?t = "Lines [Object (ex_entry (Some ''r1'') 10)]"
  let ?t' = "Lines [Object (ex_entry (Some ''r1'') 25)]"
  have tab: "\<forall>c\<in>ran ex_models. card_nonneg c"
    by (simp add: ex_models_def ex_card_def card_nonneg_def rate_nonneg_def)
  have evnn: "events_nonneg ?evs"
    by (simp add: events_nonneg_def ex_pre_def ex_post_def get0_def)
  have evle: "list_all2 event_le ?evs ?evs'"
    by (simp add: event_le_def ex_pre_def ex_post_def get0_def)
  have evrefl: "list_all2 event_le ?evs ?evs"
    by (simp add: event_le_def)
  have trnn: "transcript_nonneg (Some ?t)"
    by (simp add: transcript_nonneg_def ex_entry_def usage_nonneg_def get0_def)
  have trle: "transcript_le (Some ?t) (Some ?t')"
    by (simp add: entry_le_def message_le_def usage_le_def ex_entry_def get0_def)
  have ne: "?evs \<noteq> []" by simp
  obtain ru where ru: "parse_real_usage ?t = Some ru" "us_model ru = ''claude-sonnet-4-5''"
    by (simp add: parse_real_usage_def ex_entry_def summarise_def make_call_def get0_def
        get_str_def last_model_def)
  have card: "fst (price_for (if us_model ru \<noteq> [] then us_model ru else ''claude-sonnet-4-6'')
      ex_models ex_aliases) = ex_card"
    by (simp add: ru(2) price_for_def ex_models_def)
  obtain cost where "authoritative_cost ex_card (us_input_tokens ru) (us_output_tokens ru)
           (us_cache_creation_tokens ru) (us_cache_read_tokens ru) = Inr cost"
  proof -
    have "rc_input ex_card \<noteq> None" "rc_output ex_card \<noteq> None"
      by (simp_all add: ex_card_def)
    then show ?thesis using authoritative_cost_returns that by blast
  qed
  then obtain res where res: "analyse ?evs ex_models ex_aliases CONTEXT_CAP (Some ?t) = Inr (Some res)"
    "a_using_real_data res"
    using analyse_authoritative [OF ne ru(1), of ex_models ex_aliases cost CONTEXT_CAP] card
    by auto
  have nn1: "0 \<le> a_total_cost res"
    using cost_nonneg_monotone [of ex_models "Some ?t" ?evs ex_aliases CONTEXT_CAP res]
      tab trnn evnn res(1) by blast
  obtain res' where res': "analyse ?evs ex_models ex_aliases CONTEXT_CAP (Some ?t') = Inr (Some res')"
    "a_using_real_data res' = a_using_real_data res" "a_total_cost res \<le> a_total_cost res'"
    using cost_nonneg_monotone
      [of ex_models "Some ?t" ?evs ex_aliases CONTEXT_CAP res "Some ?t'" ?evs]
      tab trle evrefl res(1) by blast
  have 1: "\<exists>res res'.
      analyse ?evs ex_models ex_aliases CONTEXT_CAP (Some ?t) = Inr (Some res)
      \<and> analyse ?evs ex_models ex_aliases CONTEXT_CAP (Some ?t') = Inr (Some res')
      \<and> a_using_real_data res \<and> a_using_real_data res'
      \<and> 0 \<le> a_total_cost res \<and> a_total_cost res \<le> a_total_cost res'"
    using res res' nn1 by auto
  obtain dres where dres: "analyse ?evs ex_models ex_aliases CONTEXT_CAP None = Inr (Some dres)"
    using analyse_degraded_returns [of ?evs ex_models ex_aliases CONTEXT_CAP]
    by (auto simp: ex_events_model price_default_fallback FALLBACK_PRICING_def)
  have dflag: "\<not> a_using_real_data dres"
    using dres by (rule analyse_degraded_flag)
  have nn2: "0 \<le> a_total_cost dres"
    using cost_nonneg_monotone [of ex_models None ?evs ex_aliases CONTEXT_CAP dres]
      tab evnn dres by (simp add: transcript_nonneg_def)
  obtain dres' where dres': "analyse ?evs' ex_models ex_aliases CONTEXT_CAP None = Inr (Some dres')"
    "a_using_real_data dres' = a_using_real_data dres" "a_total_cost dres \<le> a_total_cost dres'"
    using cost_nonneg_monotone
      [of ex_models None ?evs ex_aliases CONTEXT_CAP dres None ?evs']
      tab evle dres by auto
  have 2: "\<exists>res res'.
      analyse ?evs ex_models ex_aliases CONTEXT_CAP None = Inr (Some res)
      \<and> analyse ?evs' ex_models ex_aliases CONTEXT_CAP None = Inr (Some res')
      \<and> \<not> a_using_real_data res \<and> \<not> a_using_real_data res'
      \<and> 0 \<le> a_total_cost res \<and> a_total_cost res \<le> a_total_cost res'"
    using dres dres' dflag nn2 by auto
  from 1 2 show ?thesis by blast
qed

end
